theory Spec2Isabelle
  imports Main "HOL-Library.Signed_Division" "HOL-Library.Sublist"
begin

section \<open>The N-dimensional array engine of \<open>cpp/ndarray.cpp\<close>\<close>

text \<open>
  The class template \<open>ndarray<T>\<close> holds a shape (\<open>std::vector<int>\<close>) and a flat,
  row-major sequence of shared cells (\<open>std::vector<std::shared_ptr<T>>\<close>).

  \<^item> A cell is an address into an explicit store. The store is a list of values, a cell's
    address is its index, and \<open>std::make_shared\<close> appends a value. Reference counting only
    ever frees a cell that no array can reach, so freeing is not modelled.
  \<^item> \<open>int\<close> has 32 bits. The product that \<open>get_size\<close> accumulates leaves that range on
    shapes the code accepts, and \<open>reshape\<close>, \<open>full\<close> and \<open>operator[]\<close> act on what the machine
    computes: the product is taken in two's complement, with the wrap-around written out
    (\<open>int32\<close>), and so are the offset of \<open>operator[]\<close>, the counter of \<open>arange\<close> and the
    arithmetic of the element type \<open>int\<close>. A resolved index is the sum of a negative
    index and an axis size, which is in range when the size is not negative. The running
    sizes of \<open>braodcast\<close> are unbounded integers here: on valid arrays, a running size that
    \<open>expand_data\<close> applies to a sequence with cells is at most the length of that
    sequence, and the store of this model has no limit; an execution that builds a
    sequence of \<open>2^31\<close> cells or more is not what the statements below describe.
  \<^item> An exception is a value of the type \<open>error\<close>, returned as \<open>Inl\<close>. Besides the three
    kinds the source throws, \<open>StdLengthError\<close> stands for the standard library's failure
    to build a vector of a negative size, and \<open>UndefinedBehaviour\<close> for an execution the
    C++ standard gives no meaning to and the machine does not carry on with either (an
    iterator moved out of its range, an element read past the end of a vector, a loop
    without effect that never ends, an integer division that traps).
  \<^item> The element type \<open>T\<close> is a type variable; its arithmetic comes in as a record of
    operations. An operation gives \<open>None\<close> where the element type's operator has no
    result (for \<open>int\<close>, a division that traps).
\<close>

subsection \<open>Data model\<close>

datatype error = IndexError | TypeError | ValueError | StdLengthError | UndefinedBehaviour

type_synonym Shape = "int list"
type_synonym Value = nat
type_synonym Data = "Value list"
type_synonym 'a heap = "'a list"

text \<open>The members \<open>shape_\<close> and \<open>data_\<close>.\<close>

record ndarray =
  nd_shape :: Shape
  nd_data :: Data

datatype Operator = OP_ADD | OP_SUB | OP_MUL | OP_DIV

text \<open>A 32-bit \<open>int\<close> in two's complement: the value of the given integer after
  wrap-around.\<close>

definition int32 :: "int \<Rightarrow> int" where
  "int32 x = (x + 2147483648) mod 4294967296 - 2147483648"

text \<open>What the template uses of its parameter \<open>T\<close>: the conversion from \<open>int\<close> and the
  four binary operators, each with \<open>None\<close> where it has no result.\<close>

record 'a dtype =
  from_int :: "int \<Rightarrow> 'a"
  t_add :: "'a \<Rightarrow> 'a \<Rightarrow> 'a option"
  t_sub :: "'a \<Rightarrow> 'a \<Rightarrow> 'a option"
  t_mul :: "'a \<Rightarrow> 'a \<Rightarrow> 'a option"
  t_div :: "'a \<Rightarrow> 'a \<Rightarrow> 'a option"

text \<open>\<open>T = int\<close>, the instance of \<open>main\<close>: sums, differences and products wrap around;
  division truncates towards zero, and traps on a zero divisor and on the one quotient
  that does not fit, \<open>INT_MIN / -1\<close>.\<close>

definition int_dtype :: "int dtype" where
  "int_dtype =
     \<lparr>from_int = (\<lambda>i. i),
      t_add = (\<lambda>a b. Some (int32 (a + b))),
      t_sub = (\<lambda>a b. Some (int32 (a - b))),
      t_mul = (\<lambda>a b. Some (int32 (a * b))),
      t_div = (\<lambda>a b. if b = 0 \<or> (a = - 2147483648 \<and> b = - 1) then None
                       else Some (a sdiv b))\<rparr>"

text \<open>A selector of \<open>slice\<close>: an integer index or a range pair.\<close>

datatype slice_arg = Index int | Range int int

subsection \<open>Cells\<close>

definition make_shared :: "'a heap \<Rightarrow> 'a \<Rightarrow> Value \<times> 'a heap" where
  "make_shared h v = (length h, h @ [v])"

text \<open>\<open>transform_data\<close>: one new cell per value, in order.\<close>

fun transform_data :: "'a heap \<Rightarrow> 'a list \<Rightarrow> Data \<times> 'a heap" where
  "transform_data h [] = ([], h)"
| "transform_data h (x # xs) =
     (let (p, h1) = make_shared h x;
          (ps, h2) = transform_data h1 xs
      in (p # ps, h2))"

subsection \<open>Shapes and sizes\<close>

text \<open>\<open>std::accumulate(shape.begin(), shape.end(), 1, std::multiplies<int>())\<close>: each
  product is an \<open>int\<close>.\<close>

definition get_size :: "Shape \<Rightarrow> int" where
  "get_size shape = foldl (\<lambda>acc d. int32 (acc * d)) 1 shape"

definition ndim :: "ndarray \<Rightarrow> int" where
  "ndim a = int (length (nd_shape a))"

definition size_nd :: "ndarray \<Rightarrow> int" where
  "size_nd a = int (length (nd_data a))"

definition len :: "ndarray \<Rightarrow> error + int" where
  "len a = (if ndim a = 0 then Inl TypeError else Inr (hd (nd_shape a)))"

text \<open>\<open>get_shape\<close> over a container of arrays: the common shape of the elements with the
  element count in front, or the empty shape when there is no element or two elements
  disagree.\<close>

definition get_shape :: "ndarray list \<Rightarrow> Shape" where
  "get_shape ary =
     (if length ary = 0 then []
      else let shape = nd_shape (hd ary) in
        if list_ex (\<lambda>subary. nd_shape subary \<noteq> shape) ary then []
        else int (length ary) # shape)"

definition flatten_data :: "ndarray list \<Rightarrow> Data" where
  "flatten_data ary = foldl (\<lambda>data subary. data @ nd_data subary) [] ary"

subsection \<open>Construction\<close>

text \<open>\<open>ndarray()\<close>: the shape \<open>{0}\<close> and no cell.\<close>

definition ndarray_default :: ndarray where
  "ndarray_default = \<lparr>nd_shape = [0], nd_data = []\<rparr>"

text \<open>\<open>ndarray(std::initializer_list<ndarray>)\<close>. Both early returns leave the two members
  as their own default constructors made them: two empty vectors.\<close>

definition ndarray_of_arrays :: "ndarray list \<Rightarrow> ndarray" where
  "ndarray_of_arrays ary =
     (let shape = get_shape ary in
      if shape = [] then \<lparr>nd_shape = [], nd_data = []\<rparr>
      else let data = flatten_data ary in
        if data = [] then \<lparr>nd_shape = [], nd_data = []\<rparr>
        else \<lparr>nd_shape = shape, nd_data = data\<rparr>)"

text \<open>\<open>ndarray(std::initializer_list<T>)\<close>\<close>

definition ndarray_of_values :: "'a heap \<Rightarrow> 'a list \<Rightarrow> ndarray \<times> 'a heap" where
  "ndarray_of_values h ary =
     (let shape = [int (length ary)];
          (data, h1) = transform_data h ary
      in (\<lparr>nd_shape = shape, nd_data = data\<rparr>, h1))"

text \<open>\<open>arange\<close>: \<open>std::vector<T> ary(n)\<close> fails for a negative \<open>n\<close>; \<open>std::iota\<close> counts
  in \<open>int\<close> from \<open>start\<close> and converts each value to \<open>T\<close>.\<close>

definition arange :: "'a dtype \<Rightarrow> 'a heap \<Rightarrow> int \<Rightarrow> int \<Rightarrow> (error + ndarray) \<times> 'a heap" where
  "arange T h n start =
     (if n < 0 then (Inl StdLengthError, h)
      else let ary = map (\<lambda>i. from_int T (int32 i)) [start .. start + n - 1];
               (data, h1) = transform_data h ary
           in (Inr \<lparr>nd_shape = [n], nd_data = data\<rparr>, h1))"

definition scalar :: "'a heap \<Rightarrow> 'a \<Rightarrow> ndarray \<times> 'a heap" where
  "scalar h s = (let (p, h1) = make_shared h s in (\<lparr>nd_shape = [], nd_data = [p]\<rparr>, h1))"

definition full :: "'a heap \<Rightarrow> Shape \<Rightarrow> 'a \<Rightarrow> (error + ndarray) \<times> 'a heap" where
  "full h shape fill_value =
     (let size = get_size shape in
      if size < 0 then (Inl StdLengthError, h)
      else let (data, h1) = transform_data h (replicate (nat size) fill_value)
           in (Inr \<lparr>nd_shape = shape, nd_data = data\<rparr>, h1))"

subsection \<open>Reshape, conversion\<close>

definition reshape :: "ndarray \<Rightarrow> Shape \<Rightarrow> error + ndarray" where
  "reshape a new_shape =
     (let size = get_size (nd_shape a) in
      if size \<noteq> get_size new_shape then Inl ValueError
      else Inr \<lparr>nd_shape = new_shape, nd_data = nd_data a\<rparr>)"

text \<open>\<open>astype<U>\<close>: the cells of the result live in the store of \<open>U\<close> values. Reading a
  cell that the store of \<open>T\<close> values does not hold cannot happen in C++; the model gives
  it no meaning.\<close>

fun astype_cells :: "('a \<Rightarrow> 'u) \<Rightarrow> 'a heap \<Rightarrow> 'u heap \<Rightarrow> Data \<Rightarrow> (error + Data) \<times> 'u heap" where
  "astype_cells conv h hu [] = (Inr [], hu)"
| "astype_cells conv h hu (p # ps) =
     (if p < length h then
        (let (q, hu1) = make_shared hu (conv (h ! p)) in
         case astype_cells conv h hu1 ps of
           (Inl e, hu2) \<Rightarrow> (Inl e, hu2)
         | (Inr qs, hu2) \<Rightarrow> (Inr (q # qs), hu2))
      else (Inl UndefinedBehaviour, hu))"

definition astype :: "('a \<Rightarrow> 'u) \<Rightarrow> 'a heap \<Rightarrow> 'u heap \<Rightarrow> ndarray \<Rightarrow> (error + ndarray) \<times> 'u heap" where
  "astype conv h hu a =
     (case astype_cells conv h hu (nd_data a) of
        (Inl e, hu1) \<Rightarrow> (Inl e, hu1)
      | (Inr data, hu1) \<Rightarrow> (Inr \<lparr>nd_shape = nd_shape a, nd_data = data\<rparr>, hu1))"

text \<open>\<open>operator T()\<close>\<close>

definition operator_T :: "'a heap \<Rightarrow> ndarray \<Rightarrow> error + 'a" where
  "operator_T h a =
     (if size_nd a \<noteq> 1 then Inl TypeError
      else if hd (nd_data a) < length h then Inr (h ! hd (nd_data a))
      else Inl UndefinedBehaviour)"

subsection \<open>Indexing\<close>

definition resolve_index :: "ndarray \<Rightarrow> int \<Rightarrow> bool \<Rightarrow> error + int" where
  "resolve_index a index verify =
     (if ndim a = 0 then Inl IndexError
      else case len a of
        Inl e \<Rightarrow> Inl e
      | Inr dim \<Rightarrow>
          if verify \<and> (index < - dim \<or> index \<ge> dim) then Inl IndexError
          else Inr (if index < 0 then index + dim else index))"

text \<open>\<open>operator[]\<close>. The offset \<open>index *= size\<close> is an \<open>int\<close> product. The two iterators
  \<open>std::next(data_.begin(), index)\<close> and \<open>std::next(data_.begin(), index + size)\<close> must
  delimit a range inside \<open>data_\<close>.\<close>

definition operator_index :: "ndarray \<Rightarrow> int \<Rightarrow> error + ndarray" where
  "operator_index a index0 =
     (case resolve_index a index0 True of
        Inl e \<Rightarrow> Inl e
      | Inr index1 \<Rightarrow>
          let shape = tl (nd_shape a);
              size = get_size shape;
              index = int32 (index1 * size)
          in if 0 \<le> index \<and> 0 \<le> size \<and> index + size \<le> int (length (nd_data a))
             then Inr \<lparr>nd_shape = shape, nd_data = take (nat size) (drop (nat index) (nd_data a))\<rparr>
             else Inl UndefinedBehaviour)"

subsection \<open>Slicing\<close>

text \<open>The results of a sequence of calls, up to the first exception.\<close>

fun collect :: "(error + 'b) list \<Rightarrow> error + 'b list" where
  "collect [] = Inr []"
| "collect (Inl e # rs) = Inl e"
| "collect (Inr x # rs) = (case collect rs of Inl e \<Rightarrow> Inl e | Inr xs \<Rightarrow> Inr (x # xs))"

text \<open>\<open>slice\<close> and the three overloads of \<open>slice_impl\<close>. The loop of the range overload
  calls the index overload once for each position from \<open>begin\<close> up to \<open>end - 1\<close>.\<close>

function slice :: "ndarray \<Rightarrow> slice_arg list \<Rightarrow> error + ndarray"
  and slice_impl :: "ndarray \<Rightarrow> slice_arg list \<Rightarrow> error + ndarray" where
  "slice a args =
     (if int (length args) > ndim a then Inl IndexError else slice_impl a args)"
| "slice_impl a [] = Inr a"
| "slice_impl a (Index index # args) =
     (case operator_index a index of
        Inl e \<Rightarrow> Inl e
      | Inr sub \<Rightarrow> slice sub args)"
| "slice_impl a (Range first second # args) =
     (case resolve_index a first False of
        Inl e \<Rightarrow> Inl e
      | Inr rfirst \<Rightarrow>
         (case len a of
            Inl e \<Rightarrow> Inl e
          | Inr dim \<Rightarrow>
             (case resolve_index a second False of
                Inl e \<Rightarrow> Inl e
              | Inr rsecond \<Rightarrow>
                 (case collect (map (\<lambda>i. slice_impl a (Index i # args))
                                  [max 0 rfirst .. min dim rsecond - 1]) of
                    Inl e \<Rightarrow> Inl e
                  | Inr slices \<Rightarrow>
                      let shape = get_shape slices in
                      if shape = [] then Inr ndarray_default
                      else let data = flatten_data slices in
                        if data = [] then Inr ndarray_default
                        else Inr \<lparr>nd_shape = shape, nd_data = data\<rparr>))))"
  by pat_completeness auto
termination
  by (relation "measure (\<lambda>x. case x of
         Inl (a, args) \<Rightarrow> 3 * length args + 3
       | Inr (a, args) \<Rightarrow> 3 * length args +
           (case args of Range f s # r \<Rightarrow> 2 | _ \<Rightarrow> 1))")
     (auto split: list.splits slice_arg.splits)

subsection \<open>Broadcasting\<close>

text \<open>\<open>expand_data\<close> repeats each group of \<open>n\<close> cells \<open>k\<close> times. The loop steps its
  iterator by \<open>n\<close> until it meets the end: with data left, a step \<open>n \<le> 0\<close> never gets
  there and a step past the end is out of range, so neither returns.\<close>

function expand_data :: "Data \<Rightarrow> int \<Rightarrow> int \<Rightarrow> error + Data" where
  "expand_data old_data n k =
     (if old_data = [] then Inr []
      else if n \<le> 0 \<or> int (length old_data) < n then Inl UndefinedBehaviour
      else case expand_data (drop (nat n) old_data) n k of
             Inl e \<Rightarrow> Inl e
           | Inr new_data \<Rightarrow> Inr (concat (replicate (nat k) (take (nat n) old_data)) @ new_data))"
  by pat_completeness auto
termination
  by (relation "measure (\<lambda>(old_data, n, k). length old_data)") auto

text \<open>The state of the loop of \<open>braodcast\<close>: \<open>ldata\<close>, \<open>rdata\<close>, \<open>lsize\<close>, \<open>rsize\<close> and
  \<open>shape\<close>. One iteration, for the dimensions \<open>ldim\<close> and \<open>rdim\<close> read from the two
  iterators (1 for an iterator that is exhausted); \<open>None\<close> is \<open>return false\<close>.\<close>

type_synonym bstate = "Data \<times> Data \<times> int \<times> int \<times> Shape"

definition braodcast_step :: "bool \<Rightarrow> int \<Rightarrow> int \<Rightarrow> bstate \<Rightarrow> error + bstate option" where
  "braodcast_step is_lhs_mutable ldim rdim st =
     (case st of (ldata, rdata, lsize, rsize, shape) \<Rightarrow>
        if ldim \<noteq> rdim then
          if rdim = 1 then
            (case expand_data rdata rsize ldim of
               Inl e \<Rightarrow> Inl e
             | Inr rdata' \<Rightarrow> Inr (Some (ldata, rdata', lsize * ldim, rsize * ldim, shape @ [ldim])))
          else if is_lhs_mutable \<and> ldim = 1 then
            (case expand_data ldata lsize rdim of
               Inl e \<Rightarrow> Inl e
             | Inr ldata' \<Rightarrow> Inr (Some (ldata', rdata, lsize * rdim, rsize * rdim, shape @ [rdim])))
          else Inr None
        else Inr (Some (ldata, rdata, lsize * ldim, rsize * rdim, shape @ [ldim])))"

text \<open>The loop, over the two shapes read backwards.\<close>

fun braodcast_loop :: "int list \<Rightarrow> int list \<Rightarrow> bool \<Rightarrow> bstate \<Rightarrow> error + bstate option" where
  "braodcast_loop [] [] m st = Inr (Some st)"
| "braodcast_loop (ldim # i) [] m st =
     (case braodcast_step m ldim 1 st of
        Inl e \<Rightarrow> Inl e
      | Inr None \<Rightarrow> Inr None
      | Inr (Some st') \<Rightarrow> braodcast_loop i [] m st')"
| "braodcast_loop [] (rdim # j) m st =
     (case braodcast_step m 1 rdim st of
        Inl e \<Rightarrow> Inl e
      | Inr None \<Rightarrow> Inr None
      | Inr (Some st') \<Rightarrow> braodcast_loop [] j m st')"
| "braodcast_loop (ldim # i) (rdim # j) m st =
     (case braodcast_step m ldim rdim st of
        Inl e \<Rightarrow> Inl e
      | Inr None \<Rightarrow> Inr None
      | Inr (Some st') \<Rightarrow> braodcast_loop i j m st')"

text \<open>\<open>braodcast\<close>: \<open>Inr None\<close> is the result \<open>false\<close>; \<open>Inr (Some (ldata, rdata, shape))\<close>
  is the result \<open>true\<close> with the three output parameters.\<close>

definition braodcast ::
  "Shape \<Rightarrow> Shape \<Rightarrow> bool \<Rightarrow> Data \<Rightarrow> Data \<Rightarrow> error + (Data \<times> Data \<times> Shape) option" where
  "braodcast lshape rshape is_lhs_mutable ldata rdata =
     (case braodcast_loop (rev lshape) (rev rshape) is_lhs_mutable (ldata, rdata, 1, 1, []) of
        Inl e \<Rightarrow> Inl e
      | Inr None \<Rightarrow> Inr None
      | Inr (Some (ldata', rdata', lsize, rsize, shape)) \<Rightarrow> Inr (Some (ldata', rdata', rev shape)))"

subsection \<open>Assignment\<close>

text \<open>The loop \<open>*data_[i] = *rdata[i]\<close> over the cells of the target, in order. It reads
  \<open>rdata[i]\<close> whether or not \<open>rdata\<close> is that long.\<close>

fun assign_cells :: "'a heap \<Rightarrow> Data \<Rightarrow> Data \<Rightarrow> error option \<times> 'a heap" where
  "assign_cells h [] rdata = (None, h)"
| "assign_cells h (p # ps) [] = (Some UndefinedBehaviour, h)"
| "assign_cells h (p # ps) (r # rs) =
     (if p < length h \<and> r < length h then assign_cells (h[p := h ! r]) ps rs
      else (Some UndefinedBehaviour, h))"

text \<open>\<open>operator=\<close> returns \<open>*this\<close>: the members of the target are never assigned.\<close>

definition operator_assign :: "'a heap \<Rightarrow> ndarray \<Rightarrow> ndarray \<Rightarrow> (error + ndarray) \<times> 'a heap" where
  "operator_assign h this rhs =
     (case braodcast (nd_shape this) (nd_shape rhs) False (nd_data this) (nd_data rhs) of
        Inl e \<Rightarrow> (Inl e, h)
      | Inr None \<Rightarrow> (Inl ValueError, h)
      | Inr (Some (ldata, rdata, shape)) \<Rightarrow>
          (case assign_cells h (nd_data this) rdata of
             (Some e, h') \<Rightarrow> (Inl e, h')
           | (None, h') \<Rightarrow> (Inr this, h')))"

text \<open>The template \<open>opeartor=(const U &)\<close> assigns a scalar.\<close>

definition operator_assign_scalar :: "'a heap \<Rightarrow> ndarray \<Rightarrow> 'a \<Rightarrow> (error + ndarray) \<times> 'a heap" where
  "operator_assign_scalar h this rhs =
     (let (s, h1) = scalar h rhs in operator_assign h1 this s)"

subsection \<open>Arithmetic\<close>

text \<open>The loop \<open>data[i] = std::make_shared<T>(f(*ldata[i], *rdata[i]))\<close>. It stops where
  \<open>f\<close> has no result.\<close>

fun operator_cells ::
  "('a \<Rightarrow> 'a \<Rightarrow> 'a option) \<Rightarrow> 'a heap \<Rightarrow> Data \<Rightarrow> Data \<Rightarrow> (error + Data) \<times> 'a heap" where
  "operator_cells f h [] rdata = (Inr [], h)"
| "operator_cells f h (l # ls) [] = (Inl UndefinedBehaviour, h)"
| "operator_cells f h (l # ls) (r # rs) =
     (if l < length h \<and> r < length h then
        (case f (h ! l) (h ! r) of
           None \<Rightarrow> (Inl UndefinedBehaviour, h)
         | Some v \<Rightarrow>
            (let (p, h1) = make_shared h v in
             case operator_cells f h1 ls rs of
               (Inl e, h2) \<Rightarrow> (Inl e, h2)
             | (Inr ps, h2) \<Rightarrow> (Inr (p # ps), h2)))
      else (Inl UndefinedBehaviour, h))"

definition operator_fn :: "'a dtype \<Rightarrow> Operator \<Rightarrow> 'a \<Rightarrow> 'a \<Rightarrow> 'a option" where
  "operator_fn T op =
     (case op of OP_ADD \<Rightarrow> t_add T | OP_SUB \<Rightarrow> t_sub T | OP_MUL \<Rightarrow> t_mul T | OP_DIV \<Rightarrow> t_div T)"

definition operator_impl ::
  "'a dtype \<Rightarrow> 'a heap \<Rightarrow> ndarray \<Rightarrow> ndarray \<Rightarrow> Operator \<Rightarrow> (error + ndarray) \<times> 'a heap" where
  "operator_impl T h this rhs op =
     (case braodcast (nd_shape this) (nd_shape rhs) True (nd_data this) (nd_data rhs) of
        Inl e \<Rightarrow> (Inl e, h)
      | Inr None \<Rightarrow> (Inl ValueError, h)
      | Inr (Some (ldata, rdata, shape)) \<Rightarrow>
          (case operator_cells (operator_fn T op) h ldata rdata of
             (Inl e, h') \<Rightarrow> (Inl e, h')
           | (Inr data, h') \<Rightarrow> (Inr \<lparr>nd_shape = shape, nd_data = data\<rparr>, h')))"

text \<open>The operators with a scalar operand promote it with \<open>scalar\<close> first; unary minus
  multiplies by the scalar \<open>-1\<close>.\<close>

definition operator_scalar_lhs ::
  "'a dtype \<Rightarrow> 'a heap \<Rightarrow> 'a \<Rightarrow> ndarray \<Rightarrow> Operator \<Rightarrow> (error + ndarray) \<times> 'a heap" where
  "operator_scalar_lhs T h lhs rhs op =
     (let (s, h1) = scalar h lhs in operator_impl T h1 s rhs op)"

definition operator_scalar_rhs ::
  "'a dtype \<Rightarrow> 'a heap \<Rightarrow> ndarray \<Rightarrow> 'a \<Rightarrow> Operator \<Rightarrow> (error + ndarray) \<times> 'a heap" where
  "operator_scalar_rhs T h lhs rhs op =
     (let (s, h1) = scalar h rhs in operator_impl T h1 lhs s op)"

definition operator_neg :: "'a dtype \<Rightarrow> 'a heap \<Rightarrow> ndarray \<Rightarrow> (error + ndarray) \<times> 'a heap" where
  "operator_neg T h this =
     (let (s, h1) = scalar h (from_int T (- 1)) in operator_impl T h1 this s OP_MUL)"

subsection \<open>Broadcasting as the specification words it\<close>

text \<open>
  The definitions of this subsection follow the specification, not the source; the code's
  \<open>braodcast\<close> is compared with them below.

  Alignment pairs the dimension sizes of two shapes from the trailing axis; a missing
  leading axis of the shorter shape counts as size 1, which is the shorter shape padded
  with leading ones. A pair \<open>(a, b)\<close> gives \<open>a\<close> when \<open>a = b\<close>, gives \<open>a\<close> when \<open>b = 1\<close>, gives
  \<open>b\<close> when the left side may grow and \<open>a = 1\<close>, and fails otherwise.
\<close>

definition spec_pad :: "nat \<Rightarrow> Shape \<Rightarrow> Shape" where
  "spec_pad n shape = replicate (n - length shape) 1 @ shape"

definition spec_align_pair :: "bool \<Rightarrow> int \<Rightarrow> int \<Rightarrow> int option" where
  "spec_align_pair lhsExpandable a b =
     (if a = b then Some a
      else if b = 1 then Some a
      else if lhsExpandable \<and> a = 1 then Some b
      else None)"

fun spec_align_pairs :: "bool \<Rightarrow> Shape \<Rightarrow> Shape \<Rightarrow> Shape option" where
  "spec_align_pairs m [] [] = Some []"
| "spec_align_pairs m (a # s) (b # t) =
     (case spec_align_pair m a b of
        None \<Rightarrow> None
      | Some c \<Rightarrow> (case spec_align_pairs m s t of None \<Rightarrow> None | Some u \<Rightarrow> Some (c # u)))"
| "spec_align_pairs m s t = None"

definition spec_align :: "bool \<Rightarrow> Shape \<Rightarrow> Shape \<Rightarrow> Shape option" where
  "spec_align lhsExpandable shapeA shapeB =
     (let n = max (length shapeA) (length shapeB)
      in spec_align_pairs lhsExpandable (spec_pad n shapeA) (spec_pad n shapeB))"

text \<open>
  The cells of an array of shape \<open>a # s\<close> are those of its \<open>a\<close> sub-arrays of shape \<open>s\<close>, one
  after the other. Broadcast to the shape \<open>b # t\<close>: when \<open>a = b\<close> each sub-array is
  broadcast to \<open>t\<close>; otherwise the axis has size 1 and its one sub-array, broadcast to \<open>t\<close>,
  is repeated \<open>b\<close> times. \<open>spec_broadcast\<close> pads the missing leading axes first.
\<close>

fun spec_broadcast_to :: "Shape \<Rightarrow> Shape \<Rightarrow> 'x list \<Rightarrow> 'x list" where
  "spec_broadcast_to (a # s) (b # t) d =
     (if a = b
      then concat (map (\<lambda>i. spec_broadcast_to s t
                              (take (nat (prod_list s)) (drop (i * nat (prod_list s)) d)))
                       [0 ..< nat a])
      else concat (replicate (nat b) (spec_broadcast_to s t d)))"
| "spec_broadcast_to s t d = d"

definition spec_broadcast :: "Shape \<Rightarrow> Shape \<Rightarrow> 'x list \<Rightarrow> 'x list" where
  "spec_broadcast shape target d = spec_broadcast_to (spec_pad (length target) shape) target d"

subsection \<open>Valid arrays\<close>

text \<open>The data model's invariant (a), \<open>len(cells) == product(shape)\<close>; a shape of
  non-negative sizes; a valid array has both and a number of cells that an \<open>int\<close> holds,
  as \<open>size()\<close> returns it; the cells of an array are cells of the store.\<close>

definition size_invariant :: "ndarray \<Rightarrow> bool" where
  "size_invariant a = (int (length (nd_data a)) = prod_list (nd_shape a))"

definition valid_shape :: "Shape \<Rightarrow> bool" where
  "valid_shape shape = list_all (\<lambda>d. 0 \<le> d) shape"

definition valid :: "ndarray \<Rightarrow> bool" where
  "valid a =
     (valid_shape (nd_shape a) \<and> size_invariant a \<and> length (nd_data a) < 2147483648)"

definition allocated :: "'a heap \<Rightarrow> ndarray \<Rightarrow> bool" where
  "allocated h a = list_all (\<lambda>p. p < length h) (nd_data a)"

text \<open>The specification's reading of a range bound on an axis of length \<open>axisLen\<close>:
  negative-index resolution, then clamping to \<open>[0, axisLen]\<close>.\<close>

definition spec_resolve :: "int \<Rightarrow> int \<Rightarrow> int" where
  "spec_resolve axisLen i = (if i < 0 then i + axisLen else i)"

definition spec_clamp :: "int \<Rightarrow> int \<Rightarrow> int" where
  "spec_clamp axisLen i = max 0 (min axisLen i)"

text \<open>The sub-array at position \<open>i\<close> of axis 0: the shape without its leading axis and the
  \<open>i\<close>-th block of \<open>product(shape[1:])\<close> cells.\<close>

definition sub_array :: "ndarray \<Rightarrow> nat \<Rightarrow> ndarray" where
  "sub_array a i =
     \<lparr>nd_shape = tl (nd_shape a),
      nd_data = take (nat (prod_list (tl (nd_shape a))))
                  (drop (i * nat (prod_list (tl (nd_shape a)))) (nd_data a))\<rparr>"

text \<open>What the induction over the arguments of \<open>slice\<close> carries: on valid arrays a slice
  is a valid array whose cells are cells of the source in the source's order, and
  whether it fails, and the shape of its result, depend on the shape of the source
  only.\<close>

definition slice_wb :: "slice_arg list \<Rightarrow> bool" where
  "slice_wb args =
     (\<forall>a. valid a \<longrightarrow>
        (\<forall>v. slice a args = Inr v \<longrightarrow> valid v \<and> subseq (nd_data v) (nd_data a)) \<and>
        (\<forall>a'. valid a' \<longrightarrow> nd_shape a' = nd_shape a \<longrightarrow>
           map_sum id nd_shape (slice a' args) = map_sum id nd_shape (slice a args)))"

text \<open>The last lines of the range overload of \<open>slice_impl\<close>, which put the per-index
  sub-arrays together.\<close>

definition concat_slices :: "ndarray list \<Rightarrow> ndarray" where
  "concat_slices slices =
     (let shape = get_shape slices in
      if shape = [] then ndarray_default
      else let data = flatten_data slices in
        if data = [] then ndarray_default
        else \<lparr>nd_shape = shape, nd_data = data\<rparr>)"

section \<open>Properties\<close>

subsection \<open>Sizes, cells\<close>

lemma int32_cong: "x mod 4294967296 = y mod 4294967296 \<Longrightarrow> int32 x = int32 y"
  unfolding int32_def by (metis mod_add_left_eq)

lemma int32_mod: "int32 x mod 4294967296 = x mod 4294967296"
  unfolding int32_def by (simp add: mod_simps)

lemma int32_mult: "int32 (int32 x * d) = int32 (x * d)"
  by (rule int32_cong) (metis int32_mod mod_mult_left_eq)

lemma int32_fits: "- 2147483648 \<le> x \<Longrightarrow> x < 2147483648 \<Longrightarrow> int32 x = x"
  by (simp add: int32_def)

lemma foldl_int32: "foldl (\<lambda>acc d. int32 (acc * d)) (int32 x) shape = int32 (x * prod_list shape)"
proof (induction shape arbitrary: x)
  case Nil
  show ?case by simp
next
  case (Cons d shape)
  have "foldl (\<lambda>acc d. int32 (acc * d)) (int32 (int32 x * d)) shape
      = foldl (\<lambda>acc d. int32 (acc * d)) (int32 (x * d)) shape"
    by (simp only: int32_mult)
  then show ?case by (simp add: Cons.IH mult.assoc)
qed

lemma get_size_int32: "get_size shape = int32 (prod_list shape)"
  using foldl_int32 [of 1 shape] by (simp add: get_size_def int32_fits)

lemma get_size_prod:
  "0 \<le> prod_list shape \<Longrightarrow> prod_list shape < 2147483648 \<Longrightarrow> get_size shape = prod_list shape"
  by (simp add: get_size_int32 int32_fits)

lemma transform_data_eq: "transform_data h xs = ([length h ..< length h + length xs], h @ xs)"
proof (induction xs arbitrary: h)
  case Nil
  show ?case by simp
next
  case (Cons x xs)
  have "length h < length h + length (x # xs)" by simp
  from upt_conv_Cons [OF this]
  have "[length h ..< length h + length (x # xs)] =
        length h # [Suc (length h) ..< Suc (length h) + length xs]"
    by simp
  then show ?case
    by (simp add: Cons.IH make_shared_def)
qed

lemma foldl_append_data:
  "foldl (\<lambda>data subary. data @ nd_data subary) acc ary = acc @ concat (map nd_data ary)"
  by (induction ary arbitrary: acc) simp_all

lemma flatten_data_concat: "flatten_data ary = concat (map nd_data ary)"
  by (simp add: flatten_data_def foldl_append_data)

subsection \<open>Axis-0 length\<close>

text \<open>
  Claim C9, as amended. \<open>len()\<close> on an array of rank 0 always fails, and the exception it
  throws is the type error ("scalar type has no len()"), not an index error.
\<close>

theorem len_rank0_type_error: "ndim a = 0 \<Longrightarrow> len a = Inl TypeError"
  by (simp add: len_def)

theorem len_rank0_type_error_witness:
  "ndim (fst (scalar [] (7::int))) = 0 \<and> len (fst (scalar [] (7::int))) = Inl TypeError"
  using len_rank0_type_error [of "fst (scalar [] (7::int))"]
  by (simp add: scalar_def make_shared_def ndim_def)

text \<open>Claim C9 as stated fails on the scalar 7: its \<open>len()\<close> is not an index error.\<close>

theorem len_rank0_counterexample: "len (fst (scalar [] (7::int))) \<noteq> Inl IndexError"
  by (simp add: scalar_def make_shared_def ndim_def len_def)

subsection \<open>Nested literals\<close>

text \<open>
  Claim C10. A nested literal with two sub-arrays of different shapes is built without an
  exception; the array has the empty shape and no cell, so \<open>ndim() == 0\<close> and
  \<open>size() == 0\<close>, and it is not the empty one-axis array of shape \<open>[0]\<close>.
\<close>

theorem literal_shape_mismatch:
  assumes "x \<in> set ary" "y \<in> set ary" "nd_shape x \<noteq> nd_shape y"
  shows "ndarray_of_arrays ary = \<lparr>nd_shape = [], nd_data = []\<rparr>
       \<and> ndim (ndarray_of_arrays ary) = 0
       \<and> size_nd (ndarray_of_arrays ary) = 0
       \<and> ndarray_of_arrays ary \<noteq> ndarray_default"
proof -
  have "nd_shape x \<noteq> nd_shape (hd ary) \<or> nd_shape y \<noteq> nd_shape (hd ary)"
    using assms(3) by auto
  then have "list_ex (\<lambda>subary. nd_shape subary \<noteq> nd_shape (hd ary)) ary"
    using assms(1,2) by (auto simp: list_ex_iff)
  then have "get_shape ary = []"
    by (simp add: get_shape_def Let_def)
  then have "ndarray_of_arrays ary = \<lparr>nd_shape = [], nd_data = []\<rparr>"
    by (simp add: ndarray_of_arrays_def)
  then show ?thesis
    by (simp add: ndim_def size_nd_def ndarray_default_def)
qed

text \<open>The literal \<open>{{1, 2}, {3}}\<close>, with the cells 0, 1 and 2.\<close>

theorem literal_shape_mismatch_witness:
  "\<lparr>nd_shape = [2], nd_data = [0, 1]\<rparr> \<in> set [\<lparr>nd_shape = [2], nd_data = [0, 1]\<rparr>, \<lparr>nd_shape = [1], nd_data = [2]\<rparr>]
   \<and> \<lparr>nd_shape = [1], nd_data = [2]\<rparr> \<in> set [\<lparr>nd_shape = [2], nd_data = [0, 1]\<rparr>, \<lparr>nd_shape = [1], nd_data = [2]\<rparr>]
   \<and> nd_shape \<lparr>nd_shape = [2], nd_data = [0, 1]\<rparr> \<noteq> nd_shape \<lparr>nd_shape = [1], nd_data = [2]\<rparr>
   \<and> ndarray_of_arrays [\<lparr>nd_shape = [2], nd_data = [0, 1]\<rparr>, \<lparr>nd_shape = [1], nd_data = [2]\<rparr>]
       = \<lparr>nd_shape = [], nd_data = []\<rparr>"
  using literal_shape_mismatch [of "\<lparr>nd_shape = [2], nd_data = [0, 1]\<rparr>"
      "[\<lparr>nd_shape = [2], nd_data = [0, 1]\<rparr>, \<lparr>nd_shape = [1], nd_data = [2]\<rparr>]"
      "\<lparr>nd_shape = [1], nd_data = [2]\<rparr>"]
  by simp

subsection \<open>Reshape\<close>

text \<open>
  Claim C6, as amended. \<open>reshape(s)\<close> succeeds exactly when the product of \<open>s\<close> and the
  product of the current shape, each as the code computes it in 32-bit \<open>int\<close>, are
  equal; for two products in the range of \<open>int\<close> that is exactly when the products are
  equal. The result then has the shape \<open>s\<close> and the very cell sequence of the source, and
  reshaping it back to the source's shape gives the source again, cell for cell.
  Otherwise the result is the value error and no array.
\<close>

theorem reshape_spec:
  "reshape a s = (if int32 (prod_list s) = int32 (prod_list (nd_shape a))
                  then Inr \<lparr>nd_shape = s, nd_data = nd_data a\<rparr> else Inl ValueError)
   \<and> (- 2147483648 \<le> prod_list s \<and> prod_list s < 2147483648
        \<and> - 2147483648 \<le> prod_list (nd_shape a) \<and> prod_list (nd_shape a) < 2147483648 \<longrightarrow>
        reshape a s = (if prod_list s = prod_list (nd_shape a)
                       then Inr \<lparr>nd_shape = s, nd_data = nd_data a\<rparr> else Inl ValueError))
   \<and> (\<forall>r. reshape a s = Inr r \<longrightarrow> reshape r (nd_shape a) = Inr a)"
  by (auto simp: reshape_def get_size_int32 int32_fits)

theorem reshape_spec_witness:
  "- 2147483648 \<le> prod_list [2, 3 :: int] \<and> prod_list [2, 3 :: int] < 2147483648
   \<and> - 2147483648 \<le> prod_list (nd_shape \<lparr>nd_shape = [6], nd_data = [0, 1, 2, 3, 4, 5]\<rparr>)
   \<and> prod_list (nd_shape \<lparr>nd_shape = [6], nd_data = [0, 1, 2, 3, 4, 5]\<rparr>) < 2147483648
   \<and> reshape \<lparr>nd_shape = [6], nd_data = [0, 1, 2, 3, 4, 5]\<rparr> [2, 3]
       = Inr \<lparr>nd_shape = [2, 3], nd_data = [0, 1, 2, 3, 4, 5]\<rparr>
   \<and> reshape \<lparr>nd_shape = [2, 3], nd_data = [0, 1, 2, 3, 4, 5]\<rparr> [6]
       = Inr \<lparr>nd_shape = [6], nd_data = [0, 1, 2, 3, 4, 5]\<rparr>"
  using reshape_spec [of "\<lparr>nd_shape = [6], nd_data = [0, 1, 2, 3, 4, 5]\<rparr>" "[2, 3]"]
  by simp

text \<open>Claim C6 as stated fails on the empty array \<open>arange(0)\<close> reshaped to
  \<open>{65536, 65536}\<close>: the product of the new shape is \<open>2^32\<close>, not 0, and the code's
  product of it is 0, so \<open>reshape\<close> returns an array.\<close>

theorem reshape_overflow_counterexample:
  "arange int_dtype [] 0 0 = (Inr \<lparr>nd_shape = [0], nd_data = []\<rparr>, [])
   \<and> prod_list [65536, 65536] \<noteq> prod_list (nd_shape \<lparr>nd_shape = [0], nd_data = []\<rparr>)
   \<and> reshape \<lparr>nd_shape = [0], nd_data = []\<rparr> [65536, 65536]
       = Inr \<lparr>nd_shape = [65536, 65536], nd_data = []\<rparr>"
  by (simp add: arange_def reshape_def get_size_def int32_def)

subsection \<open>Indexing on axis 0\<close>

lemma block_in_range:
  fixes dim sz idx :: int
  assumes "0 \<le> idx" "idx < dim" "0 \<le> dim * sz"
  shows "0 \<le> sz" "0 \<le> idx * sz" "idx * sz + sz \<le> dim * sz"
proof -
  have dpos: "0 < dim" using assms by linarith
  show sz: "0 \<le> sz" using assms(3) dpos by (simp add: zero_le_mult_iff)
  show "0 \<le> idx * sz" using assms(1) sz by simp
  have "(idx + 1) * sz \<le> dim * sz"
    using assms(2) sz by (intro mult_right_mono) auto
  then show "idx * sz + sz \<le> dim * sz" by (simp add: algebra_simps)
qed

lemma operator_index_eq:
  assumes inv: "size_invariant a" and rank: "nd_shape a \<noteq> []"
    and fits: "length (nd_data a) < 2147483648"
  shows "operator_index a i =
      (if i < - hd (nd_shape a) \<or> hd (nd_shape a) \<le> i then Inl IndexError
       else Inr \<lparr>nd_shape = tl (nd_shape a),
                 nd_data = take (nat (prod_list (tl (nd_shape a))))
                     (drop (nat ((if i < 0 then i + hd (nd_shape a) else i)
                                  * prod_list (tl (nd_shape a))))
                       (nd_data a))\<rparr>)"
proof (cases "i < - hd (nd_shape a) \<or> hd (nd_shape a) \<le> i")
  case True
  then show ?thesis
    using rank by (auto simp: operator_index_def resolve_index_def len_def ndim_def)
next
  case False
  define dim where "dim = hd (nd_shape a)"
  define sz where "sz = prod_list (tl (nd_shape a))"
  define idx where "idx = (if i < 0 then i + dim else i)"
  have shape: "nd_shape a = dim # tl (nd_shape a)"
    using rank by (simp add: dim_def)
  have "prod_list (nd_shape a) = dim * sz"
    by (subst shape) (simp add: sz_def)
  then have len: "int (length (nd_data a)) = dim * sz"
    using inv by (simp add: size_invariant_def)
  have idx: "0 \<le> idx" "idx < dim"
    using False by (auto simp: idx_def dim_def)
  have "0 \<le> dim * sz" using len by linarith
  note b = block_in_range [OF idx this]
  have "idx * sz + sz \<le> int (length (nd_data a))" "0 \<le> idx * sz"
    using b len by simp_all
  then have "sz < 2147483648"
    using fits by linarith
  then have gs: "get_size (tl (nd_shape a)) = sz" "int32 (idx * sz) = idx * sz"
    using b(1,2) fits \<open>idx * sz + sz \<le> int (length (nd_data a))\<close>
    by (simp_all add: get_size_prod sz_def int32_fits)
  have res: "resolve_index a i True = Inr idx"
    using False rank by (auto simp: resolve_index_def len_def ndim_def idx_def dim_def)
  have "operator_index a i = Inr \<lparr>nd_shape = tl (nd_shape a),
                 nd_data = take (nat sz) (drop (nat (idx * sz)) (nd_data a))\<rparr>"
    using b len
    by (simp add: operator_index_def res gs Let_def)
  then show ?thesis
    using False by (simp add: idx_def sz_def dim_def)
qed

text \<open>
  Claim C4, as amended. On an array of rank at least 1 that holds \<open>product(shape)\<close> cells,
  fewer than \<open>2^31\<close>, \<open>a[i]\<close> is an index error exactly when \<open>i\<close> lies outside
  \<open>[-axisLen, axisLen)\<close>. Otherwise a negative \<open>i\<close> stands for \<open>i + axisLen\<close>, the result has
  the shape without its leading axis, and its cells are the block of \<open>product(shape[1:])\<close>
  cells of the source that starts at the offset \<open>index * product(shape[1:])\<close>: the same
  cells, not copies. So \<open>a[-1]\<close> is \<open>a[len(a) - 1]\<close>.
\<close>

theorem operator_index_spec:
  assumes inv: "size_invariant a" and rank: "nd_shape a \<noteq> []"
    and fits: "length (nd_data a) < 2147483648"
  shows "operator_index a i =
      (if i < - hd (nd_shape a) \<or> hd (nd_shape a) \<le> i then Inl IndexError
       else Inr \<lparr>nd_shape = tl (nd_shape a),
                 nd_data = take (nat (prod_list (tl (nd_shape a))))
                     (drop (nat ((if i < 0 then i + hd (nd_shape a) else i)
                                  * prod_list (tl (nd_shape a))))
                       (nd_data a))\<rparr>)
     \<and> operator_index a (- 1) = operator_index a (hd (nd_shape a) - 1)"
proof -
  have "operator_index a (- 1) = operator_index a (hd (nd_shape a) - 1)"
    by (simp add: operator_index_eq [OF assms])
  then show ?thesis
    by (simp add: operator_index_eq [OF assms])
qed

theorem operator_index_spec_witness:
  "size_invariant \<lparr>nd_shape = [3, 2], nd_data = [0, 1, 2, 3, 4, 5]\<rparr>
   \<and> nd_shape \<lparr>nd_shape = [3, 2], nd_data = [0, 1, 2, 3, 4, 5]\<rparr> \<noteq> []
   \<and> length (nd_data \<lparr>nd_shape = [3, 2], nd_data = [0, 1, 2, 3, 4, 5]\<rparr>) < 2147483648
   \<and> operator_index \<lparr>nd_shape = [3, 2], nd_data = [0, 1, 2, 3, 4, 5]\<rparr> (- 1)
       = Inr \<lparr>nd_shape = [2], nd_data = [4, 5]\<rparr>
   \<and> operator_index \<lparr>nd_shape = [3, 2], nd_data = [0, 1, 2, 3, 4, 5]\<rparr> 2
       = Inr \<lparr>nd_shape = [2], nd_data = [4, 5]\<rparr>
   \<and> operator_index \<lparr>nd_shape = [3, 2], nd_data = [0, 1, 2, 3, 4, 5]\<rparr> 3 = Inl IndexError"
  using operator_index_spec [of "\<lparr>nd_shape = [3, 2], nd_data = [0, 1, 2, 3, 4, 5]\<rparr>" "- 1"]
    operator_index_spec [of "\<lparr>nd_shape = [3, 2], nd_data = [0, 1, 2, 3, 4, 5]\<rparr>" 3]
  by (simp add: size_invariant_def)

text \<open>Claim C4 as stated fails on arrays of rank at least 1 that the code builds without
  their cells. \<open>arange(0).reshape({65536, 65536})\<close> has the shape \<open>[65536, 65536]\<close> and no
  cell, since the product wraps around to 0; the literal \<open>{{1, 2}, {3}}\<close> is the array of
  empty shape without a cell, and \<open>reshape({1})\<close> gives it the shape \<open>[1]\<close>. On both the
  index 0 lies in \<open>[-axisLen, axisLen)\<close>, and \<open>operator[]\<close> takes a block that the cell
  sequence does not have: neither the index error nor a view.\<close>

theorem operator_index_counterexample:
  "arange int_dtype [] 0 0 = (Inr \<lparr>nd_shape = [0], nd_data = []\<rparr>, [])
   \<and> reshape \<lparr>nd_shape = [0], nd_data = []\<rparr> [65536, 65536]
     = Inr \<lparr>nd_shape = [65536, 65536], nd_data = []\<rparr>
   \<and> - hd (nd_shape \<lparr>nd_shape = [65536, 65536], nd_data = []\<rparr>) \<le> 0
   \<and> 0 < hd (nd_shape \<lparr>nd_shape = [65536, 65536], nd_data = []\<rparr>)
   \<and> operator_index \<lparr>nd_shape = [65536, 65536], nd_data = []\<rparr> 0 = Inl UndefinedBehaviour
   \<and> ndarray_of_arrays [\<lparr>nd_shape = [2], nd_data = [0, 1]\<rparr>, \<lparr>nd_shape = [1], nd_data = [2]\<rparr>]
     = \<lparr>nd_shape = [], nd_data = []\<rparr>
   \<and> reshape \<lparr>nd_shape = [], nd_data = []\<rparr> [1] = Inr \<lparr>nd_shape = [1], nd_data = []\<rparr>
   \<and> - hd (nd_shape \<lparr>nd_shape = [1], nd_data = []\<rparr>) \<le> 0
   \<and> 0 < hd (nd_shape \<lparr>nd_shape = [1], nd_data = []\<rparr>)
   \<and> operator_index \<lparr>nd_shape = [1], nd_data = []\<rparr> 0 = Inl UndefinedBehaviour"
  by (simp add: arange_def reshape_def get_size_def int32_def ndarray_of_arrays_def
      get_shape_def operator_index_def resolve_index_def len_def ndim_def)

subsection \<open>The code's broadcast against the specification's\<close>

declare expand_data.simps [simp del]

lemma expand_data_Nil: "expand_data [] n k = Inr []"
  by (simp add: expand_data.simps)

lemma expand_data_single:
  assumes "int (length x) = n"
  shows "expand_data x n k = Inr (concat (replicate (nat k) x))"
proof (cases "x = []")
  case True
  then show ?thesis by (simp add: expand_data_Nil)
next
  case False
  then have "0 < n" using assms by auto
  then show ?thesis
    using False assms
    by (subst expand_data.simps) (auto simp: expand_data_Nil)
qed

lemma expand_data_append:
  "expand_data x n k = Inr x' \<Longrightarrow>
   expand_data (x @ y) n k = (case expand_data y n k of Inl e \<Rightarrow> Inl e | Inr y' \<Rightarrow> Inr (x' @ y'))"
proof (induction x n k arbitrary: x' rule: expand_data.induct)
  case (1 old_data n k)
  show ?case
  proof (cases "old_data = []")
    case True
    then show ?thesis
      using "1.prems" by (auto simp: expand_data_Nil split: sum.splits)
  next
    case False
    from "1.prems" False have ok: "\<not> (n \<le> 0 \<or> int (length old_data) < n)"
      by (subst (asm) expand_data.simps) (auto split: if_splits)
    from "1.prems" False ok obtain r where
      r: "expand_data (drop (nat n) old_data) n k = Inr r"
      and x': "x' = concat (replicate (nat k) (take (nat n) old_data)) @ r"
      by (subst (asm) expand_data.simps) (auto split: sum.splits)
    have IH: "expand_data (drop (nat n) old_data @ y) n k =
        (case expand_data y n k of Inl e \<Rightarrow> Inl e | Inr y' \<Rightarrow> Inr (r @ y'))"
      using "1.IH" [OF False ok r] .
    have len: "nat n \<le> length old_data" using ok by linarith
    show ?thesis
      using False ok len
      by (subst expand_data.simps) (auto simp: IH x' split: sum.splits)
  qed
qed

lemma expand_data_concat:
  assumes "\<And>x. x \<in> set xs \<Longrightarrow> expand_data x n k = Inr (f x)"
  shows "expand_data (concat xs) n k = Inr (concat (map f xs))"
  using assms
proof (induction xs)
  case Nil
  show ?case by (simp add: expand_data_Nil)
next
  case (Cons x xs)
  have "expand_data x n k = Inr (f x)" using Cons.prems by simp
  from expand_data_append [OF this, of "concat xs"]
  show ?case using Cons by simp
qed

lemma expand_data_concat_map:
  assumes "\<And>i. i \<in> set js \<Longrightarrow> expand_data (g i) n k = Inr (g' i)"
  shows "expand_data (concat (map g js)) n k = Inr (concat (map g' js))"
  using assms
proof (induction js)
  case Nil
  show ?case by (simp add: expand_data_Nil)
next
  case (Cons j js)
  have "expand_data (g j) n k = Inr (g' j)" using Cons.prems by simp
  from expand_data_append [OF this, of "concat (map g js)"]
  show ?case using Cons by simp
qed

lemma valid_shape_prod_nonneg: "valid_shape s \<Longrightarrow> 0 \<le> prod_list s"
  by (induction s) (simp_all add: valid_shape_def)

lemma valid_shape_Cons [simp]: "valid_shape (a # s) \<longleftrightarrow> 0 \<le> a \<and> valid_shape s"
  by (simp add: valid_shape_def)

lemma valid_shape_Nil [simp]: "valid_shape []"
  by (simp add: valid_shape_def)

lemma valid_shape_append [simp]: "valid_shape (s @ t) \<longleftrightarrow> valid_shape s \<and> valid_shape t"
  by (simp add: valid_shape_def)

lemma valid_shape_rev [simp]: "valid_shape (rev s) \<longleftrightarrow> valid_shape s"
  by (simp add: valid_shape_def)

lemma block_length:
  assumes "length d = e * n" "i < e"
  shows "length (take n (drop (i * n) d)) = n"
proof -
  have "Suc i * n \<le> e * n" using assms(2) by (intro mult_le_mono1) simp
  then show ?thesis using assms(1) by simp
qed

lemma length_concat_map_const:
  assumes "\<And>i. i \<in> set js \<Longrightarrow> length (g i) = c"
  shows "length (concat (map g js)) = length js * c"
  using assms by (induction js) simp_all

lemma length_concat_replicate: "length (concat (replicate k x)) = k * length x"
  by (induction k) simp_all

lemma broadcastable_valid_shape:
  "list_all2 (\<lambda>a b. a = b \<or> a = 1) s t \<Longrightarrow> valid_shape t \<Longrightarrow> valid_shape s"
  by (induction rule: list_all2_induct) auto

lemma spec_broadcast_to_length:
  assumes "list_all2 (\<lambda>a b. a = b \<or> a = 1) s t" "valid_shape t"
    "length d = nat (prod_list s)"
  shows "length (spec_broadcast_to s t d) = nat (prod_list t)"
  using assms
proof (induction arbitrary: d rule: list_all2_induct)
  case Nil
  then show ?case by simp
next
  case (Cons a s b t)
  have vt: "valid_shape t" and b0: "0 \<le> b" using Cons.prems by auto
  have vs: "valid_shape s" using broadcastable_valid_shape [OF Cons.hyps(2) vt] .
  show ?case
  proof (cases "a = b")
    case True
    have len: "length d = nat a * nat (prod_list s)"
      using Cons.prems True b0 by (simp add: nat_mult_distrib)
    have "length (spec_broadcast_to s t (take (nat (prod_list s)) (drop (i * nat (prod_list s)) d)))
        = nat (prod_list t)" if "i \<in> set [0 ..< nat a]" for i
      using that by (intro Cons.IH vt block_length [OF len]) simp
    from length_concat_map_const [of "[0 ..< nat a]", OF this]
    show ?thesis using True b0 by (simp add: nat_mult_distrib)
  next
    case False
    then have a1: "a = 1" using Cons.hyps(1) by simp
    have "length (spec_broadcast_to s t d) = nat (prod_list t)"
      using Cons.prems a1 by (intro Cons.IH vt) simp
    then show ?thesis
      using False b0 by (simp add: length_concat_replicate nat_mult_distrib)
  qed
qed

lemma expand_suffix:
  assumes bc: "list_all2 (\<lambda>a b. a = b \<or> a = 1) li ti"
    and vt: "valid_shape ti" and vo: "valid_shape lo"
    and c: "0 \<le> c" "c \<noteq> 1"
    and len: "length d = nat (prod_list (lo @ 1 # li))"
  shows "expand_data (spec_broadcast_to (lo @ 1 # li) (lo @ 1 # ti) d) (prod_list ti) c
       = Inr (spec_broadcast_to (lo @ 1 # li) (lo @ c # ti) d)"
  using vo len
proof (induction lo arbitrary: d)
  case Nil
  then have len: "length d = nat (prod_list li)" by simp
  have "length (spec_broadcast_to li ti d) = nat (prod_list ti)"
    using spec_broadcast_to_length [OF bc vt len] .
  then have "int (length (spec_broadcast_to li ti d)) = prod_list ti"
    using valid_shape_prod_nonneg [OF vt] by simp
  from expand_data_single [OF this]
  show ?case using c len by simp
next
  case (Cons e lo)
  define R where "R = lo @ 1 # li"
  have e0: "0 \<le> e" and vo: "valid_shape lo" using Cons.prems by auto
  have len: "length d = nat e * nat (prod_list R)"
    using Cons.prems e0 by (simp add: nat_mult_distrib R_def)
  have "expand_data (spec_broadcast_to R (lo @ 1 # ti)
            (take (nat (prod_list R)) (drop (i * nat (prod_list R)) d))) (prod_list ti) c
       = Inr (spec_broadcast_to R (lo @ c # ti)
            (take (nat (prod_list R)) (drop (i * nat (prod_list R)) d)))"
    if "i \<in> set [0 ..< nat e]" for i
  proof -
    have "i < nat e" using that by simp
    from block_length [OF len this]
    show ?thesis unfolding R_def by (intro Cons.IH vo)
  qed
  from expand_data_concat_map [of "[0 ..< nat e]", OF this]
  show ?case by (simp flip: R_def)
qed

lemma take_blocks:
  "e * n \<le> length d \<Longrightarrow> concat (map (\<lambda>i. take n (drop (i * n) d)) [0 ..< e]) = take (e * n) d"
proof (induction e)
  case 0
  show ?case by simp
next
  case (Suc e)
  then have "concat (map (\<lambda>i. take n (drop (i * n) d)) [0 ..< e]) = take (e * n) d" by simp
  moreover have "take (e * n + n) d = take (e * n) d @ take n (drop (e * n) d)"
    by (rule take_add)
  ultimately show ?case by (simp add: add.commute)
qed

lemma concat_blocks:
  "length d = e * n \<Longrightarrow> concat (map (\<lambda>i. take n (drop (i * n) d)) [0 ..< e]) = d"
  using take_blocks [of e n d] by simp

lemma spec_broadcast_to_same:
  "valid_shape s \<Longrightarrow> length d = nat (prod_list s) \<Longrightarrow> spec_broadcast_to s s d = d"
proof (induction s arbitrary: d)
  case Nil
  show ?case by simp
next
  case (Cons a s)
  have a0: "0 \<le> a" and vs: "valid_shape s" using Cons.prems by auto
  have len: "length d = nat a * nat (prod_list s)"
    using Cons.prems a0 by (simp add: nat_mult_distrib)
  have "spec_broadcast_to s s (take (nat (prod_list s)) (drop (i * nat (prod_list s)) d))
      = take (nat (prod_list s)) (drop (i * nat (prod_list s)) d)" if "i \<in> set [0 ..< nat a]" for i
  proof -
    have "i < nat a" using that by simp
    from block_length [OF len this] show ?thesis by (intro Cons.IH vs)
  qed
  then have B: "map (\<lambda>i. spec_broadcast_to s s (take (nat (prod_list s)) (drop (i * nat (prod_list s)) d))) [0 ..< nat a]
      = map (\<lambda>i. take (nat (prod_list s)) (drop (i * nat (prod_list s)) d)) [0 ..< nat a]"
    by (intro map_cong) auto
  have A: "spec_broadcast_to (a # s) (a # s) d
      = concat (map (\<lambda>i. spec_broadcast_to s s (take (nat (prod_list s)) (drop (i * nat (prod_list s)) d))) [0 ..< nat a])"
    by simp
  show ?case
    unfolding A B using concat_blocks [OF len] .
qed

lemma spec_align_pairs_length:
  "spec_align_pairs m s t = Some u \<Longrightarrow> length s = length t \<and> length u = length t"
  by (induction m s t arbitrary: u rule: spec_align_pairs.induct)
     (auto split: option.splits)

lemma spec_align_pairs_broadcastable:
  "spec_align_pairs m s t = Some u \<Longrightarrow>
   list_all2 (\<lambda>a b. a = b \<or> a = 1) s u \<and> list_all2 (\<lambda>a b. a = b \<or> a = 1) t u"
  by (induction m s t arbitrary: u rule: spec_align_pairs.induct)
     (auto simp: spec_align_pair_def split: option.splits if_splits)

lemma spec_align_pairs_valid:
  "spec_align_pairs m s t = Some u \<Longrightarrow> valid_shape s \<Longrightarrow> valid_shape t \<Longrightarrow> valid_shape u"
  by (induction m s t arbitrary: u rule: spec_align_pairs.induct)
     (auto simp: spec_align_pair_def split: option.splits if_splits)

lemma spec_align_pairs_append:
  "length lo = length ro \<Longrightarrow>
   spec_align_pairs m (lo @ s) (ro @ t) =
     (case spec_align_pairs m lo ro of
        None \<Rightarrow> None
      | Some v \<Rightarrow> (case spec_align_pairs m s t of None \<Rightarrow> None | Some u \<Rightarrow> Some (v @ u)))"
  by (induction lo ro rule: list_induct2) (auto split: option.splits)

lemma spec_align_pairs_fixed_lhs:
  "spec_align_pairs False s t = Some u \<Longrightarrow> u = s"
  by (induction False s t arbitrary: u rule: spec_align_pairs.induct)
     (auto simp: spec_align_pair_def split: option.splits if_splits)

lemma braodcast_step_aligned:
  assumes pair: "spec_align_pair m a b = Some c"
    and al: "spec_align_pairs m li ri = Some ti"
    and v: "valid_shape lo" "valid_shape ro" "valid_shape li" "valid_shape ri" "0 \<le> a" "0 \<le> b"
    and len: "length ld = nat (prod_list (lo @ a # li))" "length rd = nat (prod_list (ro @ b # ri))"
  shows "braodcast_step m a b
           (spec_broadcast_to (lo @ a # li) (lo @ a # ti) ld,
            spec_broadcast_to (ro @ b # ri) (ro @ b # ti) rd,
            prod_list ti, prod_list ti, rev ti)
       = Inr (Some (spec_broadcast_to (lo @ a # li) (lo @ c # ti) ld,
                    spec_broadcast_to (ro @ b # ri) (ro @ c # ti) rd,
                    prod_list (c # ti), prod_list (c # ti), rev (c # ti)))"
proof -
  note bc = spec_align_pairs_broadcastable [OF al]
  have vt: "valid_shape ti" using spec_align_pairs_valid [OF al v(3,4)] .
  consider (same) "a = b" "c = a"
    | (right) "a \<noteq> b" "b = 1" "c = a"
    | (left) "a \<noteq> b" "b \<noteq> 1" "m" "a = 1" "c = b"
    using pair by (auto simp: spec_align_pair_def split: if_splits)
  then show ?thesis
  proof cases
    case same
    then show ?thesis by (simp add: braodcast_step_def mult.commute)
  next
    case right
    have "a \<noteq> 1" using right by simp
    from expand_suffix [OF conjunct2 [OF bc] vt v(2) v(5) this, of rd] len(2) right
    have "expand_data (spec_broadcast_to (ro @ b # ri) (ro @ b # ti) rd) (prod_list ti) a
        = Inr (spec_broadcast_to (ro @ b # ri) (ro @ a # ti) rd)"
      by simp
    then show ?thesis using right by (simp add: braodcast_step_def mult.commute)
  next
    case left
    have "b \<noteq> 1" using left by simp
    from expand_suffix [OF conjunct1 [OF bc] vt v(1) v(6) this, of ld] len(1) left
    have "expand_data (spec_broadcast_to (lo @ a # li) (lo @ a # ti) ld) (prod_list ti) b
        = Inr (spec_broadcast_to (lo @ a # li) (lo @ b # ti) ld)"
      by simp
    then show ?thesis using left by (simp add: braodcast_step_def mult.commute)
  qed
qed

lemma braodcast_step_mismatch:
  assumes "spec_align_pair m a b = None"
  shows "braodcast_step m a b (ld, rd, p, q, sh) = Inr None"
  using assms by (auto simp: braodcast_step_def spec_align_pair_def split: if_splits)

lemma braodcast_loop_suffix:
  assumes "length i = length j"
    and "spec_align_pairs m li ri = Some ti"
    and "valid_shape i" "valid_shape j" "valid_shape li" "valid_shape ri"
    and "length ld = nat (prod_list (rev i @ li))" "length rd = nat (prod_list (rev j @ ri))"
  shows "braodcast_loop i j m
           (spec_broadcast_to (rev i @ li) (rev i @ ti) ld,
            spec_broadcast_to (rev j @ ri) (rev j @ ti) rd,
            prod_list ti, prod_list ti, rev ti)
       = Inr (case spec_align_pairs m (rev i @ li) (rev j @ ri) of
                None \<Rightarrow> None
              | Some t \<Rightarrow> Some (spec_broadcast_to (rev i @ li) t ld,
                                spec_broadcast_to (rev j @ ri) t rd,
                                prod_list t, prod_list t, rev t))"
  using assms
proof (induction i j arbitrary: li ri ti rule: list_induct2)
  case Nil
  then show ?case by simp
next
  case (Cons a i b j)
  have v: "valid_shape (rev i)" "valid_shape (rev j)" "valid_shape li" "valid_shape ri"
      "0 \<le> a" "0 \<le> b" "valid_shape i" "valid_shape j"
    using Cons.prems by simp_all
  have len: "length ld = nat (prod_list (rev i @ a # li))"
      "length rd = nat (prod_list (rev j @ b # ri))"
    using Cons.prems by simp_all
  have lr: "length (rev i) = length (rev j)" using Cons.hyps by simp
  show ?case
  proof (cases "spec_align_pair m a b")
    case None
    have "spec_align_pairs m (rev i @ a # li) (rev j @ b # ri) = None"
      using None by (simp add: spec_align_pairs_append [OF lr] split: option.splits)
    then show ?thesis
      by (simp add: braodcast_step_mismatch [OF None])
  next
    case (Some c)
    have al: "spec_align_pairs m (a # li) (b # ri) = Some (c # ti)"
      using Some Cons.prems(1) by simp
    have v': "valid_shape (a # li)" "valid_shape (b # ri)" using v by simp_all
    from braodcast_step_aligned [OF Some Cons.prems(1) v(1-6) len]
    have step: "braodcast_step m a b
           (spec_broadcast_to (rev i @ a # li) (rev i @ a # ti) ld,
            spec_broadcast_to (rev j @ b # ri) (rev j @ b # ti) rd,
            prod_list ti, prod_list ti, rev ti)
       = Inr (Some (spec_broadcast_to (rev i @ a # li) (rev i @ c # ti) ld,
                    spec_broadcast_to (rev j @ b # ri) (rev j @ c # ti) rd,
                    prod_list (c # ti), prod_list (c # ti), rev (c # ti)))" .
    have e: "rev (a # i) @ li = rev i @ a # li" "rev (b # j) @ ri = rev j @ b # ri"
      by simp_all
    from Cons.IH [OF al v(7,8) v' len]
    show ?thesis
      unfolding e by (simp add: step)
  qed
qed

lemma braodcast_loop_pad:
  "braodcast_loop i j m st =
   braodcast_loop (i @ replicate (length j - length i) 1) (j @ replicate (length i - length j) 1) m st"
proof (induction i j m st rule: braodcast_loop.induct)
  case (1 m st)
  show ?case by simp
next
  case (2 ldim i m st)
  then show ?case
    by (simp add: replicate_app_Cons_same split: sum.splits option.splits)
next
  case (3 rdim j m st)
  then show ?case
    by (simp add: replicate_app_Cons_same split: sum.splits option.splits)
next
  case (4 ldim i rdim j m st)
  then show ?case
    by (simp split: sum.splits option.splits)
qed

lemma rev_spec_pad: "rev (spec_pad n s) = rev s @ replicate (n - length s) 1"
  by (simp add: spec_pad_def)

lemma prod_list_spec_pad: "prod_list (spec_pad n s) = prod_list s"
  by (simp add: spec_pad_def)

lemma valid_shape_replicate_1: "valid_shape (replicate k 1)"
  by (induction k) simp_all

lemma valid_shape_spec_pad: "valid_shape s \<Longrightarrow> valid_shape (spec_pad n s)"
  by (simp add: spec_pad_def valid_shape_replicate_1)

lemma length_spec_pad: "length s \<le> n \<Longrightarrow> length (spec_pad n s) = n"
  by (simp add: spec_pad_def)

lemma spec_align_length:
  "spec_align m s t = Some u \<Longrightarrow> length u = max (length s) (length t)"
  by (auto simp: spec_align_def Let_def length_spec_pad dest!: spec_align_pairs_length)

lemma braodcast_refines:
  assumes v: "valid_shape ls" "valid_shape rs"
    and len: "length ld = nat (prod_list ls)" "length rd = nat (prod_list rs)"
  shows "braodcast ls rs m ld rd =
     Inr (case spec_align m ls rs of
            None \<Rightarrow> None
          | Some t \<Rightarrow> Some (spec_broadcast ls t ld, spec_broadcast rs t rd, t))"
proof -
  define n where "n = max (length ls) (length rs)"
  define pl where "pl = spec_pad n ls"
  define pr where "pr = spec_pad n rs"
  have lpl: "length pl = n" "length pr = n"
    by (simp_all add: pl_def pr_def n_def length_spec_pad)
  have loop: "braodcast_loop (rev ls) (rev rs) m (ld, rd, 1, 1, []) =
        braodcast_loop (rev pl) (rev pr) m (ld, rd, 1, 1, [])"
  proof -
    have "max (length ls) (length rs) - length ls = length rs - length ls"
        "max (length ls) (length rs) - length rs = length ls - length rs"
      by simp_all
    then show ?thesis
      by (subst braodcast_loop_pad) (simp add: pl_def pr_def rev_spec_pad n_def)
  qed
  have vp: "valid_shape (rev pl)" "valid_shape (rev pr)"
    using v by (simp_all add: pl_def pr_def spec_pad_def valid_shape_replicate_1)
  have vp': "valid_shape pl" "valid_shape pr"
    using v by (simp_all add: pl_def pr_def valid_shape_spec_pad)
  have lenp: "length ld = nat (prod_list pl)" "length rd = nat (prod_list pr)"
    using len by (simp_all add: pl_def pr_def prod_list_spec_pad)
  have same: "spec_broadcast_to pl pl ld = ld" "spec_broadcast_to pr pr rd = rd"
    using spec_broadcast_to_same [OF vp'(1) lenp(1)] spec_broadcast_to_same [OF vp'(2) lenp(2)]
    by simp_all
  have "braodcast_loop (rev pl) (rev pr) m
           (spec_broadcast_to (rev (rev pl) @ []) (rev (rev pl) @ []) ld,
            spec_broadcast_to (rev (rev pr) @ []) (rev (rev pr) @ []) rd,
            prod_list [], prod_list [], rev [])
       = Inr (case spec_align_pairs m (rev (rev pl) @ []) (rev (rev pr) @ []) of
                None \<Rightarrow> None
              | Some t \<Rightarrow> Some (spec_broadcast_to (rev (rev pl) @ []) t ld,
                                spec_broadcast_to (rev (rev pr) @ []) t rd,
                                prod_list t, prod_list t, rev t))"
    using lenp lpl vp by (intro braodcast_loop_suffix) simp_all
  then have main: "braodcast_loop (rev pl) (rev pr) m (ld, rd, 1, 1, [])
       = Inr (case spec_align_pairs m pl pr of
                None \<Rightarrow> None
              | Some t \<Rightarrow> Some (spec_broadcast_to pl t ld, spec_broadcast_to pr t rd,
                                prod_list t, prod_list t, rev t))"
    by (simp add: same cong: option.case_cong)
  have al: "spec_align m ls rs = spec_align_pairs m pl pr"
    by (simp add: spec_align_def pl_def pr_def n_def Let_def)
  show ?thesis
  proof (cases "spec_align_pairs m pl pr")
    case None
    then show ?thesis by (simp add: braodcast_def loop main al)
  next
    case (Some t)
    have "length t = n" using spec_align_pairs_length [OF Some] lpl by simp
    then have "spec_broadcast ls t ld = spec_broadcast_to pl t ld"
        "spec_broadcast rs t rd = spec_broadcast_to pr t rd"
      by (simp_all add: spec_broadcast_def pl_def pr_def)
    then show ?thesis by (simp add: braodcast_def loop main al Some)
  qed
qed

subsection \<open>Arithmetic\<close>

lemma spec_broadcast_to_set: "set (spec_broadcast_to s t d) \<subseteq> set d"
proof (induction s t d rule: spec_broadcast_to.induct)
  case (1 a s b t d)
  show ?case
  proof (cases "a = b")
    case True
    have "\<forall>i \<in> set [0 ..< nat a].
        set (spec_broadcast_to s t (take (nat (prod_list s)) (drop (i * nat (prod_list s)) d)))
        \<subseteq> set d"
    proof
      fix i assume i: "i \<in> set [0 ..< nat a]"
      have "set (take (nat (prod_list s)) (drop (i * nat (prod_list s)) d)) \<subseteq> set d"
        by (meson set_take_subset set_drop_subset subset_trans)
      with "1.IH"(1) [OF True i]
      show "set (spec_broadcast_to s t (take (nat (prod_list s)) (drop (i * nat (prod_list s)) d)))
        \<subseteq> set d" by blast
    qed
    then show ?thesis using True by auto
  next
    case False
    with "1.IH"(2) show ?thesis by auto
  qed
qed simp_all

lemma spec_broadcast_set: "set (spec_broadcast s t d) \<subseteq> set d"
  by (simp add: spec_broadcast_def spec_broadcast_to_set)

lemma spec_align_broadcast_length:
  assumes al: "spec_align m ls rs = Some t"
    and v: "valid_shape ls" "valid_shape rs"
    and len: "length ld = nat (prod_list ls)" "length rd = nat (prod_list rs)"
  shows "length (spec_broadcast ls t ld) = nat (prod_list t)"
    and "length (spec_broadcast rs t rd) = nat (prod_list t)"
    and "valid_shape t"
proof -
  define n where "n = max (length ls) (length rs)"
  have al': "spec_align_pairs m (spec_pad n ls) (spec_pad n rs) = Some t"
    using al by (simp add: spec_align_def Let_def n_def)
  have lt: "length t = n" using spec_align_length [OF al] by (simp add: n_def)
  note bc = spec_align_pairs_broadcastable [OF al']
  show vt: "valid_shape t"
    using spec_align_pairs_valid [OF al' valid_shape_spec_pad [OF v(1)] valid_shape_spec_pad [OF v(2)]] .
  show "length (spec_broadcast ls t ld) = nat (prod_list t)"
    unfolding spec_broadcast_def lt
    using len by (intro spec_broadcast_to_length conjunct1 [OF bc] vt) (simp add: prod_list_spec_pad)
  show "length (spec_broadcast rs t rd) = nat (prod_list t)"
    unfolding spec_broadcast_def lt
    using len by (intro spec_broadcast_to_length conjunct2 [OF bc] vt) (simp add: prod_list_spec_pad)
qed

lemma operator_cells_eq:
  assumes "length ls = length rs"
    and "\<forall>p \<in> set ls. p < length h" "\<forall>p \<in> set rs. p < length h"
    and "those (map2 f (map ((!) h) ls) (map ((!) h) rs)) = Some vals"
  shows "operator_cells f h ls rs = (Inr [length h ..< length h + length ls], h @ vals)"
  using assms
proof (induction ls rs arbitrary: h vals rule: list_induct2)
  case Nil
  then show ?case by simp
next
  case (Cons l ls r rs)
  from Cons.prems(3) obtain v vs where v: "f (h ! l) (h ! r) = Some v"
    and vs: "those (map2 f (map ((!) h) ls) (map ((!) h) rs)) = Some vs"
    and vals: "vals = v # vs"
    by (auto split: option.splits)
  define h1 where "h1 = h @ [v]"
  have lt: "\<forall>p \<in> set ls. p < length h1" "\<forall>p \<in> set rs. p < length h1"
    using Cons.prems by (auto simp: h1_def)
  have rd: "map ((!) h1) ls = map ((!) h) ls" "map ((!) h1) rs = map ((!) h) rs"
    using Cons.prems by (auto simp: h1_def nth_append)
  have "length h < length h + length (l # ls)" by simp
  from upt_conv_Cons [OF this]
  have up: "[length h ..< length h + length (l # ls)] = length h # [length h1 ..< length h1 + length ls]"
    by (simp add: h1_def)
  have step: "operator_cells f h (l # ls) (r # rs) =
      (case operator_cells f h1 ls rs of
         (Inl e, h2) \<Rightarrow> (Inl e, h2)
       | (Inr ps, h2) \<Rightarrow> (Inr (length h # ps), h2))"
    using Cons.prems by (simp add: make_shared_def h1_def v)
  have ih: "operator_cells f h1 ls rs = (Inr [length h1 ..< length h1 + length ls], h1 @ vs)"
    using Cons.IH [OF lt] vs by (simp add: rd)
  show ?case
    unfolding step ih up by (simp add: h1_def vals)
qed

lemma operator_cells_trap:
  assumes "length ls = length rs"
    and "\<forall>p \<in> set ls. p < length h" "\<forall>p \<in> set rs. p < length h"
    and "those (map2 f (map ((!) h) ls) (map ((!) h) rs)) = None"
  shows "fst (operator_cells f h ls rs) = Inl UndefinedBehaviour"
  using assms
proof (induction ls rs arbitrary: h rule: list_induct2)
  case Nil
  then show ?case by simp
next
  case (Cons l ls r rs)
  show ?case
  proof (cases "f (h ! l) (h ! r)")
    case None
    then show ?thesis using Cons.prems by simp
  next
    case (Some v)
    define h1 where "h1 = h @ [v]"
    have lt: "\<forall>p \<in> set ls. p < length h1" "\<forall>p \<in> set rs. p < length h1"
      using Cons.prems by (auto simp: h1_def)
    have rd: "map ((!) h1) ls = map ((!) h) ls" "map ((!) h1) rs = map ((!) h) rs"
      using Cons.prems by (auto simp: h1_def nth_append)
    have "those (map2 f (map ((!) h1) ls) (map ((!) h1) rs)) = None"
      using Cons.prems(3) Some by (simp add: rd split: option.splits)
    from Cons.IH [OF lt this] show ?thesis
      using Cons.prems Some
      by (auto simp: make_shared_def h1_def split: prod.splits sum.splits)
  qed
qed

lemma size_invariant_length: "valid a \<Longrightarrow> length (nd_data a) = nat (prod_list (nd_shape a))"
proof -
  assume "valid a"
  then have "int (length (nd_data a)) = prod_list (nd_shape a)"
    by (simp add: valid_def size_invariant_def)
  then show ?thesis by (metis nat_int)
qed

lemma operator_impl_eq:
  assumes v: "valid this" "valid rhs" and al: "allocated h this" "allocated h rhs"
  shows "case spec_align True (nd_shape this) (nd_shape rhs) of
        None \<Rightarrow> operator_impl T h this rhs op = (Inl ValueError, h)
      | Some shape \<Rightarrow>
          (case those (map2 (operator_fn T op)
                   (map ((!) h) (spec_broadcast (nd_shape this) shape (nd_data this)))
                   (map ((!) h) (spec_broadcast (nd_shape rhs) shape (nd_data rhs)))) of
             None \<Rightarrow> fst (operator_impl T h this rhs op) = Inl UndefinedBehaviour
           | Some vals \<Rightarrow>
               operator_impl T h this rhs op =
                 (Inr \<lparr>nd_shape = shape,
                       nd_data = [length h ..< length h + nat (prod_list shape)]\<rparr>,
                  h @ vals))"
proof -
  have vs: "valid_shape (nd_shape this)" "valid_shape (nd_shape rhs)"
    using v by (simp_all add: valid_def)
  note len = size_invariant_length [OF v(1)] size_invariant_length [OF v(2)]
  note br = braodcast_refines [OF vs len, of True]
  show ?thesis
  proof (cases "spec_align True (nd_shape this) (nd_shape rhs)")
    case None
    then show ?thesis by (simp add: operator_impl_def br)
  next
    case (Some t)
    define ld where "ld = spec_broadcast (nd_shape this) t (nd_data this)"
    define rd where "rd = spec_broadcast (nd_shape rhs) t (nd_data rhs)"
    note l = spec_align_broadcast_length [OF Some vs len]
    have ll: "\<forall>p \<in> set ld. p < length h"
      using al(1) spec_broadcast_set [of "nd_shape this" t "nd_data this"]
      by (auto simp: allocated_def list_all_iff ld_def)
    have lr: "\<forall>p \<in> set rd. p < length h"
      using al(2) spec_broadcast_set [of "nd_shape rhs" t "nd_data rhs"]
      by (auto simp: allocated_def list_all_iff rd_def)
    have le: "length ld = length rd" "length ld = nat (prod_list t)"
      using l by (simp_all add: ld_def rd_def)
    have impl: "operator_impl T h this rhs op =
        (case operator_cells (operator_fn T op) h ld rd of
           (Inl e, h1) \<Rightarrow> (Inl e, h1)
         | (Inr data, h1) \<Rightarrow> (Inr \<lparr>nd_shape = t, nd_data = data\<rparr>, h1))"
      by (simp add: operator_impl_def br Some ld_def rd_def)
    show ?thesis
    proof (cases "those (map2 (operator_fn T op) (map ((!) h) ld) (map ((!) h) rd))")
      case None
      from operator_cells_trap [OF le(1) ll lr None]
      have "fst (operator_impl T h this rhs op) = Inl UndefinedBehaviour"
        unfolding impl by (auto split: prod.splits sum.splits)
      then show ?thesis
        using None by (simp add: Some flip: ld_def rd_def)
    next
      case (Some vals)
      from operator_cells_eq [OF le(1) ll lr Some]
      have "operator_impl T h this rhs op =
          (Inr \<lparr>nd_shape = t, nd_data = [length h ..< length h + nat (prod_list t)]\<rparr>, h @ vals)"
        unfolding impl using le by simp
      then show ?thesis
        using Some by (simp add: \<open>spec_align True (nd_shape this) (nd_shape rhs) = Some t\<close>
            flip: ld_def rd_def)
    qed
  qed
qed




subsection \<open>Errors and the store\<close>

lemma expand_data_error: "expand_data x n k = Inl e \<Longrightarrow> e = UndefinedBehaviour"
proof (induction x n k rule: expand_data.induct)
  case (1 old_data n k)
  from "1.prems" show ?case
    by (subst (asm) expand_data.simps) (auto split: if_splits sum.splits dest: "1.IH")
qed

lemma braodcast_step_error: "braodcast_step m a b st = Inl e \<Longrightarrow> e = UndefinedBehaviour"
  by (auto simp: braodcast_step_def split: prod.splits if_splits sum.splits dest: expand_data_error)

lemma braodcast_loop_error: "braodcast_loop i j m st = Inl e \<Longrightarrow> e = UndefinedBehaviour"
  by (induction i j m st rule: braodcast_loop.induct)
     (auto split: sum.splits option.splits dest: braodcast_step_error)

lemma braodcast_error: "braodcast ls rs m ld rd = Inl e \<Longrightarrow> e = UndefinedBehaviour"
  by (auto simp: braodcast_def split: sum.splits option.splits dest: braodcast_loop_error)

lemma assign_cells_error: "assign_cells h ps rs = (Some e, h') \<Longrightarrow> e = UndefinedBehaviour"
  by (induction h ps rs rule: assign_cells.induct) (auto split: if_splits)

lemma operator_cells_error: "operator_cells f h ls rs = (Inl e, h') \<Longrightarrow> e = UndefinedBehaviour"
  by (induction f h ls rs arbitrary: h' rule: operator_cells.induct)
     (auto simp: make_shared_def split: if_splits sum.splits prod.splits option.splits)

text \<open>
  Claim C8. The member functions that are \<open>const\<close> (\<open>len\<close>, \<open>reshape\<close>, \<open>operator[]\<close>,
  \<open>slice\<close>, the conversion to a scalar) are functions of the array alone here: they
  have no store to change, whether they fail or not. The operations that work on the
  store are assignment and arithmetic. When one of them ends in an index, type or value
  error, every cell that existed before the call holds the value it held; the six
  entry points are the two functions and their variants with a scalar operand, whose
  promoted scalar is a new cell behind the existing ones.
\<close>

theorem error_before_mutation:
  assumes "e = IndexError \<or> e = TypeError \<or> e = ValueError"
  shows "(operator_assign h this rhs = (Inl e, h') \<longrightarrow> h' = h)
       \<and> (operator_impl T h this rhs op = (Inl e, h') \<longrightarrow> h' = h)
       \<and> (operator_assign_scalar h this x = (Inl e, h') \<longrightarrow> take (length h) h' = h)
       \<and> (operator_scalar_lhs T h x rhs op = (Inl e, h') \<longrightarrow> take (length h) h' = h)
       \<and> (operator_scalar_rhs T h this x op = (Inl e, h') \<longrightarrow> take (length h) h' = h)
       \<and> (operator_neg T h this = (Inl e, h') \<longrightarrow> take (length h) h' = h)"
proof -
  have ne: "e \<noteq> UndefinedBehaviour" using assms by auto
  have "h' = h" if "operator_assign h this rhs = (Inl e, h')"
    using that ne
    by (auto simp: operator_assign_def split: sum.splits option.splits prod.splits
        dest: braodcast_error assign_cells_error)
  moreover have "h' = h" if "operator_impl T h this rhs op = (Inl e, h')"
    using that ne
    by (auto simp: operator_impl_def split: sum.splits option.splits prod.splits
        dest: braodcast_error operator_cells_error)
  moreover have "take (length h) h' = h" if "operator_assign_scalar h this x = (Inl e, h')"
    using that ne
    by (auto simp: operator_assign_scalar_def scalar_def make_shared_def operator_assign_def
        split: sum.splits option.splits prod.splits
        dest: braodcast_error assign_cells_error)
  moreover have "take (length h) h' = h" if "operator_scalar_lhs T h x rhs op = (Inl e, h')"
    using that ne
    by (auto simp: operator_scalar_lhs_def scalar_def make_shared_def operator_impl_def
        split: sum.splits option.splits prod.splits
        dest: braodcast_error operator_cells_error)
  moreover have "take (length h) h' = h" if "operator_scalar_rhs T h this x op = (Inl e, h')"
    using that ne
    by (auto simp: operator_scalar_rhs_def scalar_def make_shared_def operator_impl_def
        split: sum.splits option.splits prod.splits
        dest: braodcast_error operator_cells_error)
  moreover have "take (length h) h' = h" if "operator_neg T h this = (Inl e, h')"
    using that ne
    by (auto simp: operator_neg_def scalar_def make_shared_def operator_impl_def
        split: sum.splits option.splits prod.splits
        dest: braodcast_error operator_cells_error)
  ultimately show ?thesis by blast
qed

theorem error_before_mutation_witness:
  "(ValueError = IndexError \<or> ValueError = TypeError \<or> ValueError = ValueError)
   \<and> operator_assign [10, 20, 30, 40, 50 :: int]
        \<lparr>nd_shape = [2], nd_data = [0, 1]\<rparr> \<lparr>nd_shape = [3], nd_data = [2, 3, 4]\<rparr>
       = (Inl ValueError, [10, 20, 30, 40, 50])
   \<and> operator_impl int_dtype [10, 20, 30, 40, 50]
        \<lparr>nd_shape = [2], nd_data = [0, 1]\<rparr> \<lparr>nd_shape = [3], nd_data = [2, 3, 4]\<rparr> OP_ADD
       = (Inl ValueError, [10, 20, 30, 40, 50])"
proof -
  have a: "operator_assign [10, 20, 30, 40, 50 :: int]
        \<lparr>nd_shape = [2], nd_data = [0, 1]\<rparr> \<lparr>nd_shape = [3], nd_data = [2, 3, 4]\<rparr>
       = (Inl ValueError, snd (operator_assign [10, 20, 30, 40, 50 :: int]
        \<lparr>nd_shape = [2], nd_data = [0, 1]\<rparr> \<lparr>nd_shape = [3], nd_data = [2, 3, 4]\<rparr>))"
    by code_simp
  have b: "operator_impl int_dtype [10, 20, 30, 40, 50]
        \<lparr>nd_shape = [2], nd_data = [0, 1]\<rparr> \<lparr>nd_shape = [3], nd_data = [2, 3, 4]\<rparr> OP_ADD
       = (Inl ValueError, snd (operator_impl int_dtype [10, 20, 30, 40, 50]
        \<lparr>nd_shape = [2], nd_data = [0, 1]\<rparr> \<lparr>nd_shape = [3], nd_data = [2, 3, 4]\<rparr> OP_ADD))"
    by code_simp
  have e: "ValueError = IndexError \<or> ValueError = TypeError \<or> ValueError = ValueError"
    by simp
  from error_before_mutation [OF e, of "[10, 20, 30, 40, 50 :: int]" _ _ _ int_dtype] a b
  show ?thesis by metis
qed

subsection \<open>Assignment\<close>

lemma assign_cells_length: "length (snd (assign_cells h ps rs)) = length h"
  by (induction h ps rs rule: assign_cells.induct) auto

lemma assign_cells_frame: "p \<notin> set ps \<Longrightarrow> snd (assign_cells h ps rs) ! p = h ! p"
  by (induction h ps rs rule: assign_cells.induct) auto

lemma assign_cells_ok:
  assumes "length ps = length rs"
    and "\<forall>p \<in> set ps. p < length h" "\<forall>p \<in> set rs. p < length h"
  shows "fst (assign_cells h ps rs) = None"
  using assms by (induction ps rs arbitrary: h rule: list_induct2) auto

lemma assign_cells_values:
  assumes "length ps = length rs"
    and "\<forall>p \<in> set ps. p < length h" "\<forall>p \<in> set rs. p < length h"
    and "distinct ps" "set ps \<inter> set rs = {}"
  shows "map ((!) (snd (assign_cells h ps rs))) ps = map ((!) h) rs"
  using assms
proof (induction ps rs arbitrary: h rule: list_induct2)
  case Nil
  show ?case by simp
next
  case (Cons p ps r rs)
  define h1 where "h1 = h[p := h ! r]"
  have step: "assign_cells h (p # ps) (r # rs) = assign_cells h1 ps rs"
    using Cons.prems by (simp add: h1_def)
  have "map ((!) (snd (assign_cells h1 ps rs))) ps = map ((!) h1) rs"
    using Cons.prems by (intro Cons.IH) (auto simp: h1_def)
  also have "\<dots> = map ((!) h) rs"
  proof (rule map_cong [OF refl])
    fix x assume "x \<in> set rs"
    then have "x \<noteq> p" using Cons.prems by auto
    then show "h1 ! x = h ! x" by (simp add: h1_def)
  qed
  finally have tl: "map ((!) (snd (assign_cells h1 ps rs))) ps = map ((!) h) rs" .
  have "snd (assign_cells h1 ps rs) ! p = h1 ! p"
    using Cons.prems by (intro assign_cells_frame) simp
  also have "\<dots> = h ! r" using Cons.prems by (simp add: h1_def)
  finally have hd: "snd (assign_cells h1 ps rs) ! p = h ! r" .
  show ?case unfolding step by (simp add: tl hd)
qed

lemma spec_align_fixed_lhs:
  assumes "spec_align False ls rs = Some t"
  shows "prod_list t = prod_list ls"
proof -
  from assms have "t = spec_pad (max (length ls) (length rs)) ls"
    by (auto simp: spec_align_def Let_def dest: spec_align_pairs_fixed_lhs)
  then show ?thesis by (simp add: prod_list_spec_pad)
qed

lemma operator_assign_eq:
  assumes v: "valid this" "valid rhs" and al: "allocated h this" "allocated h rhs"
  shows "operator_assign h this rhs =
     (case spec_align False (nd_shape this) (nd_shape rhs) of
        None \<Rightarrow> (Inl ValueError, h)
      | Some t \<Rightarrow>
          (Inr this, snd (assign_cells h (nd_data this)
                            (spec_broadcast (nd_shape rhs) t (nd_data rhs)))))"
proof -
  have vs: "valid_shape (nd_shape this)" "valid_shape (nd_shape rhs)"
    using v by (simp_all add: valid_def)
  note len = size_invariant_length [OF v(1)] size_invariant_length [OF v(2)]
  note br = braodcast_refines [OF vs len, of False]
  show ?thesis
  proof (cases "spec_align False (nd_shape this) (nd_shape rhs)")
    case None
    then show ?thesis by (simp add: operator_assign_def br)
  next
    case (Some t)
    note l = spec_align_broadcast_length [OF Some vs len]
    have "length (nd_data this) = length (spec_broadcast (nd_shape rhs) t (nd_data rhs))"
      using l(2) len(1) spec_align_fixed_lhs [OF Some] by simp
    moreover have "\<forall>p \<in> set (nd_data this). p < length h"
      using al(1) by (simp add: allocated_def list_all_iff)
    moreover have "\<forall>p \<in> set (spec_broadcast (nd_shape rhs) t (nd_data rhs)). p < length h"
      using al(2) spec_broadcast_set [of "nd_shape rhs" t "nd_data rhs"]
      by (auto simp: allocated_def list_all_iff)
    ultimately have "fst (assign_cells h (nd_data this)
          (spec_broadcast (nd_shape rhs) t (nd_data rhs))) = None"
      by (rule assign_cells_ok)
    then show ?thesis
      by (cases "assign_cells h (nd_data this) (spec_broadcast (nd_shape rhs) t (nd_data rhs))")
         (simp add: operator_assign_def br Some)
  qed
qed




subsection \<open>Slices\<close>

lemma subseq_distinct: "subseq xs ys \<Longrightarrow> distinct ys \<Longrightarrow> distinct xs"
proof (induction rule: list_emb.induct)
  case (list_emb_Cons xs ys y)
  then show ?case by simp
next
  case (list_emb_Cons2 x y xs ys)
  then show ?case using list_emb_set [of "(=)" xs ys] by auto
qed simp

lemma subseq_take_drop: "subseq (take n (drop k d)) d"
proof -
  have "subseq (take n (drop k d)) (drop k d)"
    by (rule prefix_imp_subseq [OF take_is_prefix])
  moreover have "subseq (drop k d) d"
    by (rule suffix_imp_subseq [OF suffix_drop])
  ultimately show ?thesis by (rule subseq_order.trans)
qed

lemma subseq_blocks:
  assumes "\<And>i. b \<le> i \<Longrightarrow> i < e \<Longrightarrow> subseq (g i) (take n (drop (i * n) d))"
  shows "subseq (concat (map g [b ..< e])) (take (e * n) d)"
  using assms
proof (induction e)
  case 0
  show ?case by simp
next
  case (Suc e)
  show ?case
  proof (cases "b \<le> e")
    case True
    have one: "subseq (concat (map g [b ..< e])) (take (e * n) d)"
      using Suc.prems by (intro Suc.IH) simp_all
    have two: "subseq (g e) (take n (drop (e * n) d))"
      using Suc.prems True by simp
    have "take (e * n + n) d = take (e * n) d @ take n (drop (e * n) d)"
      by (rule take_add)
    then have "take (Suc e * n) d = take (e * n) d @ take n (drop (e * n) d)"
      by (simp add: add.commute)
    then show ?thesis
      using True list_emb_append_mono [OF one two] by simp
  next
    case False
    then show ?thesis by simp
  qed
qed

lemma upto_map_int: "0 \<le> lo \<Longrightarrow> [lo .. hi - 1] = map int [nat lo ..< nat hi]"
  by (rule nth_equalityI) auto

lemma collect_Inr_D: "collect rs = Inr xs \<Longrightarrow> rs = map Inr xs"
  by (induction rs arbitrary: xs rule: collect.induct) (auto split: sum.splits)

lemma collect_map_Inr: "collect (map Inr xs) = Inr xs"
  by (induction xs) simp_all

lemma collect_Inr: "collect rs = Inr xs \<longleftrightarrow> rs = map Inr xs"
  using collect_Inr_D collect_map_Inr by blast

lemma collect_map_sum:
  "map (map_sum id f) rs = map (map_sum id f) rs' \<Longrightarrow>
   map_sum id (map f) (collect rs) = map_sum id (map f) (collect rs')"
proof (induction rs arbitrary: rs' rule: collect.induct)
  case 1
  then show ?case by simp
next
  case (2 e rs)
  then obtain r' rs1 where rs': "rs' = r' # rs1" by (cases rs') auto
  with 2 show ?case by (cases r') auto
next
  case (3 x rs)
  then obtain r' rs1 where rs': "rs' = r' # rs1" by (cases rs') auto
  with "3.prems" obtain x' where r': "r' = Inr x'" "f x' = f x" by (cases r') auto
  from "3.prems" rs' have "map (map_sum id f) rs = map (map_sum id f) rs1" by (simp add: id_def)
  from "3.IH" [OF this] show ?case
    by (simp add: rs' r' split: sum.splits) (auto simp: map_sum_def split: sum.splits)
qed

lemma valid_block:
  assumes v: "valid a" and sh: "nd_shape a = dim # rest" and i: "0 \<le> i" "i < dim"
  shows "operator_index a i =
           Inr \<lparr>nd_shape = rest,
                nd_data = take (nat (prod_list rest)) (drop (nat i * nat (prod_list rest)) (nd_data a))\<rparr>"
    and "valid \<lparr>nd_shape = rest,
                nd_data = take (nat (prod_list rest)) (drop (nat i * nat (prod_list rest)) (nd_data a))\<rparr>"
proof -
  have inv: "size_invariant a" and vs: "valid_shape rest" and d0: "0 \<le> dim"
    and fits: "length (nd_data a) < 2147483648"
    using v sh by (simp_all add: valid_def)
  have ne: "nd_shape a \<noteq> []" using sh by simp
  have "nat (i * prod_list rest) = nat i * nat (prod_list rest)"
    using i by (simp add: nat_mult_distrib)
  then show "operator_index a i =
           Inr \<lparr>nd_shape = rest,
                nd_data = take (nat (prod_list rest)) (drop (nat i * nat (prod_list rest)) (nd_data a))\<rparr>"
    using i by (simp add: operator_index_eq [OF inv ne fits] sh)
  have len: "length (nd_data a) = nat dim * nat (prod_list rest)"
    using size_invariant_length [OF v] d0 by (simp add: sh nat_mult_distrib)
  have "nat i < nat dim" using i by simp
  from block_length [OF len this] valid_shape_prod_nonneg [OF vs]
  show "valid \<lparr>nd_shape = rest,
                nd_data = take (nat (prod_list rest)) (drop (nat i * nat (prod_list rest)) (nd_data a))\<rparr>"
    using vs fits by (simp add: valid_def size_invariant_def)
qed

lemma operator_index_valid:
  assumes v: "valid a" and r: "operator_index a i = Inr sub"
  shows "valid sub \<and> nd_shape a \<noteq> [] \<and> nd_shape sub = tl (nd_shape a) \<and> subseq (nd_data sub) (nd_data a)"
proof -
  have ne: "nd_shape a \<noteq> []"
    using r by (auto simp: operator_index_def resolve_index_def ndim_def split: if_splits)
  then obtain dim rest where sh: "nd_shape a = dim # rest" by (cases "nd_shape a") auto
  have inv: "size_invariant a" and fits: "length (nd_data a) < 2147483648"
    using v by (simp_all add: valid_def)
  define j where "j = (if i < 0 then i + dim else i)"
  from r have rng: "\<not> (i < - dim \<or> dim \<le> i)"
    by (simp add: operator_index_eq [OF inv ne fits] sh split: if_splits)
  then have j: "0 \<le> j" "j < dim" by (auto simp: j_def)
  have "operator_index a i = operator_index a j"
    using rng j by (simp add: operator_index_eq [OF inv ne fits] sh j_def)
  with r valid_block [OF v sh j] show ?thesis
    by (auto simp: sh subseq_take_drop)
qed

lemma operator_index_shape:
  assumes "valid a" "valid a'" "nd_shape a' = nd_shape a"
  shows "map_sum id nd_shape (operator_index a' i) = map_sum id nd_shape (operator_index a i)"
proof (cases "nd_shape a = []")
  case True
  then show ?thesis
    using assms by (simp add: operator_index_def resolve_index_def ndim_def)
next
  case False
  have "size_invariant a" "size_invariant a'"
    "length (nd_data a) < 2147483648" "length (nd_data a') < 2147483648"
    using assms by (simp_all add: valid_def)
  then show ?thesis
    using False assms(3) by (simp add: operator_index_eq)
qed

declare slice.simps [simp del]

lemma sub_array_valid:
  assumes v: "valid a" and sh: "nd_shape a = dim # rest" and i: "int i < dim"
  shows "operator_index a (int i) = Inr (sub_array a i)"
    and "valid (sub_array a i)"
    and "nd_shape (sub_array a i) = rest"
  using valid_block [OF v sh, of "int i"] i by (simp_all add: sub_array_def sh)

lemma valid_data_empty: "valid s \<Longrightarrow> nd_data s = [] \<longleftrightarrow> prod_list (nd_shape s) = 0"
  by (auto simp: valid_def size_invariant_def)

lemma get_shape_same:
  assumes "slices \<noteq> []" "\<forall>s \<in> set slices. nd_shape s = nd_shape (hd slices)"
  shows "get_shape slices = int (length slices) # nd_shape (hd slices)"
proof -
  have "\<not> list_ex (\<lambda>subary. nd_shape subary \<noteq> nd_shape (hd slices)) slices"
    unfolding list_ex_iff using assms(2) by blast
  then show ?thesis
    using assms(1) by (simp add: get_shape_def Let_def)
qed

lemma size_invariant_concat:
  assumes "slices \<noteq> []" "\<forall>s \<in> set slices. valid s \<and> nd_shape s = sh"
  shows "size_invariant
           \<lparr>nd_shape = int (length slices) # sh, nd_data = concat (map nd_data slices)\<rparr>"
    and "valid_shape (int (length slices) # sh)"
proof -
  have vs: "valid_shape sh" using assms by (cases slices) (auto simp: valid_def)
  have "length (nd_data s) = nat (prod_list sh)" if "s \<in> set slices" for s
    using assms(2) that size_invariant_length [of s] by auto
  from length_concat_map_const [of slices nd_data, OF this]
  have "length (concat (map nd_data slices)) = length slices * nat (prod_list sh)" .
  then show "size_invariant
           \<lparr>nd_shape = int (length slices) # sh, nd_data = concat (map nd_data slices)\<rparr>"
    using vs valid_shape_prod_nonneg [OF vs]
    by (simp add: size_invariant_def nat_mult_distrib)
  show "valid_shape (int (length slices) # sh)"
    using vs by simp
qed

lemma valid_concat:
  assumes "slices \<noteq> []" "\<forall>s \<in> set slices. valid s \<and> nd_shape s = sh"
    and fits: "length (concat (map nd_data slices)) < 2147483648"
  shows "valid \<lparr>nd_shape = int (length slices) # sh, nd_data = concat (map nd_data slices)\<rparr>"
  using size_invariant_concat [OF assms(1,2)] fits by (simp add: valid_def)

lemma valid_ndarray_default: "valid ndarray_default"
  by (simp add: valid_def size_invariant_def ndarray_default_def)

text \<open>The range overload on a valid array of rank at least 1.\<close>

lemma range_bounds:
  "[max 0 rf .. min dim rs - 1] = map int [nat (max 0 rf) ..< nat (min dim rs)]"
  by (rule upto_map_int) simp

lemma slice_impl_Range_collect:
  assumes v: "valid a" and sh: "nd_shape a = dim # rest"
  shows "slice_impl a (Range f s # args) =
      (case collect (map (\<lambda>i. slice (sub_array a i) args)
               [nat (max 0 (if f < 0 then f + dim else f)) ..<
                nat (min dim (if s < 0 then s + dim else s))]) of
         Inl e \<Rightarrow> Inl e
       | Inr slices \<Rightarrow> Inr (concat_slices slices))"
proof -
  define rf where "rf = (if f < 0 then f + dim else f)"
  define rs where "rs = (if s < 0 then s + dim else s)"
  have r1: "resolve_index a f False = Inr rf" "resolve_index a s False = Inr rs" "len a = Inr dim"
    by (simp_all add: resolve_index_def len_def ndim_def sh rf_def rs_def)
  have "map (\<lambda>i. slice_impl a (Index i # args)) [max 0 rf .. min dim rs - 1]
      = map (\<lambda>i. slice_impl a (Index (int i) # args)) [nat (max 0 rf) ..< nat (min dim rs)]"
    by (simp add: range_bounds comp_def)
  also have "\<dots> = map (\<lambda>i. slice (sub_array a i) args) [nat (max 0 rf) ..< nat (min dim rs)]"
  proof (rule map_cong [OF refl])
    fix i assume "i \<in> set [nat (max 0 rf) ..< nat (min dim rs)]"
    then have "int i < dim" by auto
    from sub_array_valid(1) [OF v sh this]
    show "slice_impl a (Index (int i) # args) = slice (sub_array a i) args" by simp
  qed
  finally have m: "map (\<lambda>i. slice_impl a (Index i # args)) [max 0 rf .. min dim rs - 1]
      = map (\<lambda>i. slice (sub_array a i) args) [nat (max 0 rf) ..< nat (min dim rs)]" .
  have t: "(let shape = get_shape slices in
           if shape = [] then Inr ndarray_default
           else let data = flatten_data slices in
             if data = [] then Inr ndarray_default
             else Inr \<lparr>nd_shape = shape, nd_data = data\<rparr>) = (Inr (concat_slices slices) :: error + ndarray)"
    for slices
    by (simp add: concat_slices_def Let_def)
  show ?thesis
    unfolding rf_def [symmetric] rs_def [symmetric]
    by (simp only: slice_impl.simps(3) r1 sum.case m t)
qed

lemma concat_slices_Nil: "concat_slices [] = ndarray_default"
  by (simp add: concat_slices_def get_shape_def)

lemma concat_slices_same:
  assumes ne: "slices \<noteq> []" and all: "\<forall>s \<in> set slices. valid s \<and> nd_shape s = sh"
  shows "concat_slices slices =
     (if prod_list sh = 0 then ndarray_default
      else \<lparr>nd_shape = int (length slices) # sh, nd_data = concat (map nd_data slices)\<rparr>)"
proof -
  have hd: "nd_shape (hd slices) = sh" using ne all by (cases slices) auto
  have "\<forall>s \<in> set slices. nd_shape s = nd_shape (hd slices)" using all hd by simp
  from get_shape_same [OF ne this] have gs: "get_shape slices = int (length slices) # sh"
    by (simp add: hd)
  have "concat (map nd_data slices) = [] \<longleftrightarrow> prod_list sh = 0"
  proof
    assume "concat (map nd_data slices) = []"
    then have "nd_data (hd slices) = []" using ne by (cases slices) auto
    moreover have "valid (hd slices)" using ne all by (cases slices) auto
    ultimately show "prod_list sh = 0" using valid_data_empty hd by blast
  next
    assume z: "prod_list sh = 0"
    have "nd_data s = []" if "s \<in> set slices" for s
      using all that z valid_data_empty [of s] by auto
    then show "concat (map nd_data slices) = []" by simp
  qed
  then show ?thesis
    by (simp add: concat_slices_def gs flatten_data_concat)
qed

lemma range_slices:
  assumes wb: "slice_wb args" and v: "valid a" and sh: "nd_shape a = dim # rest"
    and e: "int e \<le> dim"
    and c: "collect (map (\<lambda>i. slice (sub_array a i) args) [b ..< e]) = Inr slices"
  shows "\<forall>s \<in> set slices. valid s \<and> nd_shape s = nd_shape (hd slices)"
    and "subseq (concat (map nd_data slices)) (nd_data a)"
    and "length slices = e - b"
proof -
  define r where "r = (\<lambda>i. slice (sub_array a i) args)"
  define n where "n = nat (prod_list rest)"
  from c have m: "map r [b ..< e] = map Inr slices"
    by (simp add: collect_Inr r_def)
  then have "length (map r [b ..< e]) = length (map Inr slices)" by simp
  then show len: "length slices = e - b" by simp
  have sub: "valid (sub_array a i)" "nd_shape (sub_array a i) = rest" if "i < e" for i
    using sub_array_valid [OF v sh, of i] that e by simp_all
  have at: "r (b + k) = Inr (slices ! k)" if "k < e - b" for k
  proof -
    have "map r [b ..< e] ! k = map Inr slices ! k" using m by simp
    then show ?thesis using that len by simp
  qed
  show "\<forall>s \<in> set slices. valid s \<and> nd_shape s = nd_shape (hd slices)"
  proof
    fix s assume "s \<in> set slices"
    then obtain k where k: "k < e - b" "s = slices ! k"
      using len by (auto simp: in_set_conv_nth)
    have k0: "0 < e - b" using k by simp
    have s: "slice (sub_array a (b + k)) args = Inr s" using at [OF k(1)] k(2) by (simp add: r_def)
    have s0: "slice (sub_array a b) args = Inr (hd slices)"
      using at [OF k0] len k0 by (cases slices) (auto simp: r_def)
    have vk: "valid (sub_array a (b + k))" and v0: "valid (sub_array a b)"
      using sub k by simp_all
    have same: "nd_shape (sub_array a (b + k)) = nd_shape (sub_array a b)"
      using sub k by simp
    from wb v0 vk same
    have "map_sum id nd_shape (slice (sub_array a (b + k)) args)
        = map_sum id nd_shape (slice (sub_array a b) args)"
      unfolding slice_wb_def by blast
    then have "nd_shape s = nd_shape (hd slices)" by (simp add: s s0)
    moreover have "valid s" using wb vk s unfolding slice_wb_def by blast
    ultimately show "valid s \<and> nd_shape s = nd_shape (hd slices)" by simp
  qed
  define g where "g = (\<lambda>i. case r i of Inl x \<Rightarrow> [] | Inr v \<Rightarrow> nd_data v)"
  have "map (\<lambda>x. case x of Inl x \<Rightarrow> [] | Inr v \<Rightarrow> nd_data v) (map r [b ..< e])
      = map (\<lambda>x. case x of Inl x \<Rightarrow> [] | Inr v \<Rightarrow> nd_data v) (map Inr slices)"
    using m by simp
  then have md: "map nd_data slices = map g [b ..< e]"
    by (simp add: g_def comp_def)
  have "subseq (g i) (take n (drop (i * n) (nd_data a)))" if "b \<le> i" "i < e" for i
  proof (cases "r i")
    case (Inl x)
    then show ?thesis by (simp add: g_def)
  next
    case (Inr w)
    then have "slice (sub_array a i) args = Inr w" by (simp add: r_def)
    with wb sub(1) [OF that(2)] have "subseq (nd_data w) (nd_data (sub_array a i))"
      unfolding slice_wb_def by blast
    then show ?thesis using Inr by (simp add: g_def sub_array_def sh n_def)
  qed
  from subseq_blocks [of b e g n "nd_data a", OF this]
  have "subseq (concat (map g [b ..< e])) (take (e * n) (nd_data a))" .
  moreover have "subseq (take (e * n) (nd_data a)) (nd_data a)"
    by (rule prefix_imp_subseq [OF take_is_prefix])
  ultimately show "subseq (concat (map nd_data slices)) (nd_data a)"
    unfolding md by (rule subseq_order.trans)
qed

declare slice_impl.simps [simp del]

lemma slice_wb_Nil: "slice_wb []"
  by (simp add: slice_wb_def slice.simps slice_impl.simps ndim_def)

lemma slice_wb_Index:
  assumes wb: "slice_wb args"
  shows "slice_wb (Index i # args)"
  unfolding slice_wb_def
proof (intro allI impI conjI)
  fix a v
  assume v: "valid a" and r: "slice a (Index i # args) = Inr v"
  from r obtain sub where sub: "operator_index a i = Inr sub" and s: "slice sub args = Inr v"
    by (auto simp: slice.simps [of a] slice_impl.simps(2) split: if_splits sum.splits)
  note o = operator_index_valid [OF v sub]
  from wb o s have vs: "valid v" "subseq (nd_data v) (nd_data sub)"
    unfolding slice_wb_def by blast+
  show "valid v" by (rule vs(1))
  show "subseq (nd_data v) (nd_data a)"
    using vs(2) o subseq_order.trans by blast
next
  fix a a'
  assume v: "valid a" "valid a'" and sh: "nd_shape a' = nd_shape a"
  note os = operator_index_shape [OF v sh, of i]
  have nd: "ndim a' = ndim a" using sh by (simp add: ndim_def)
  show "map_sum id nd_shape (slice a' (Index i # args)) = map_sum id nd_shape (slice a (Index i # args))"
  proof (cases "operator_index a i")
    case (Inl e)
    with os have "operator_index a' i = Inl e" by (cases "operator_index a' i") auto
    with Inl show ?thesis by (simp add: slice.simps [of _ "Index i # args"] slice_impl.simps(2) nd)
  next
    case (Inr sub)
    with os obtain sub' where sub': "operator_index a' i = Inr sub'" "nd_shape sub' = nd_shape sub"
      by (cases "operator_index a' i") auto
    have "valid sub" "valid sub'"
      using operator_index_valid [OF v(1) Inr] operator_index_valid [OF v(2) sub'(1)] by simp_all
    with wb sub'(2) have "map_sum id nd_shape (slice sub' args) = map_sum id nd_shape (slice sub args)"
      unfolding slice_wb_def by blast
    then show ?thesis
      by (simp add: slice.simps [of _ "Index i # args"] slice_impl.simps(2) nd Inr sub')
  qed
qed

lemma concat_slices_valid:
  assumes same: "\<forall>s \<in> set slices. valid s \<and> nd_shape s = nd_shape (hd slices)"
    and fits: "length (concat (map nd_data slices)) < 2147483648"
  shows "valid (concat_slices slices)"
proof (cases "slices = []")
  case True
  then show ?thesis by (simp add: concat_slices_Nil valid_ndarray_default)
next
  case False
  from concat_slices_same [OF False same] valid_concat [OF False same fits]
  show ?thesis by (simp add: valid_ndarray_default)
qed

lemma concat_slices_data:
  assumes "\<forall>s \<in> set slices. valid s \<and> nd_shape s = nd_shape (hd slices)"
  shows "nd_data (concat_slices slices) = concat (map nd_data slices)"
proof (cases "slices = []")
  case True
  then show ?thesis by (simp add: concat_slices_Nil ndarray_default_def)
next
  case False
  have "concat (map nd_data slices) = []" if "prod_list (nd_shape (hd slices)) = 0"
  proof -
    have "nd_data s = []" if "s \<in> set slices" for s
      using assms that \<open>prod_list (nd_shape (hd slices)) = 0\<close> valid_data_empty [of s] by auto
    then show ?thesis by simp
  qed
  with concat_slices_same [OF False assms]
  show ?thesis by (simp add: ndarray_default_def)
qed

lemma concat_slices_shape:
  assumes a: "\<forall>s \<in> set slices. valid s \<and> nd_shape s = nd_shape (hd slices)"
    and a': "\<forall>s \<in> set slices'. valid s \<and> nd_shape s = nd_shape (hd slices')"
    and m: "map nd_shape slices' = map nd_shape slices"
  shows "nd_shape (concat_slices slices') = nd_shape (concat_slices slices)"
proof (cases "slices = []")
  case True
  with m show ?thesis by simp
next
  case False
  with m have ne': "slices' \<noteq> []" by auto
  from m have len: "length slices' = length slices" by (rule map_eq_imp_length_eq)
  have "hd (map nd_shape slices') = hd (map nd_shape slices)" using m by simp
  then have hd: "nd_shape (hd slices') = nd_shape (hd slices)"
    using False ne' by (simp add: hd_map)
  show ?thesis
    by (simp add: concat_slices_same [OF False a] concat_slices_same [OF ne' a'] hd len)
qed

lemma slice_Range_valid:
  assumes wb: "slice_wb args"
   and v: "valid a" and r: "slice a (Range f s # args) = Inr v"
  shows "valid v \<and> subseq (nd_data v) (nd_data a)"
proof -
  from r have ne: "nd_shape a \<noteq> []" and ri: "slice_impl a (Range f s # args) = Inr v"
    by (auto simp: slice.simps [of a] ndim_def split: if_splits)
  then obtain dim rest where sh: "nd_shape a = dim # rest" by (cases "nd_shape a") auto
  define b where "b = nat (max 0 (if f < 0 then f + dim else f))"
  define e where "e = nat (min dim (if s < 0 then s + dim else s))"
  have e: "int e \<le> dim" using v sh by (auto simp: e_def valid_def)
  from ri have "(case collect (map (\<lambda>i. slice (sub_array a i) args) [b ..< e]) of
         Inl e \<Rightarrow> Inl e
       | Inr slices \<Rightarrow> Inr (concat_slices slices)) = Inr v"
    unfolding slice_impl_Range_collect [OF v sh] b_def e_def .
  then obtain slices where
    c: "collect (map (\<lambda>i. slice (sub_array a i) args) [b ..< e]) = Inr slices"
    and vv: "v = concat_slices slices"
    by (cases "collect (map (\<lambda>i. slice (sub_array a i) args) [b ..< e])") auto
  note rs = range_slices [OF wb v sh e c]
  have "length (concat (map nd_data slices)) \<le> length (nd_data a)"
    using rs(2) by (rule list_emb_length)
  then have "length (concat (map nd_data slices)) < 2147483648"
    using v by (simp add: valid_def)
  then have "valid v" unfolding vv by (rule concat_slices_valid [OF rs(1)])
  moreover have "subseq (nd_data v) (nd_data a)"
    unfolding vv concat_slices_data [OF rs(1)] by (rule rs(2))
  ultimately show ?thesis by simp
qed

lemma slice_Range_shape:
  assumes wb: "slice_wb args"
    and v: "valid a" "valid a'" and sh': "nd_shape a' = nd_shape a"
  shows "map_sum id nd_shape (slice a' (Range f s # args)) = map_sum id nd_shape (slice a (Range f s # args))"
proof (cases "nd_shape a")
  case Nil
  then have "slice a (Range f s # args) = Inl IndexError" "slice a' (Range f s # args) = Inl IndexError"
    by (simp_all add: slice.simps [of _ "Range f s # args"] ndim_def sh')
  then show ?thesis by simp
next
  case (Cons dim rest)
  then have sh: "nd_shape a = dim # rest" "nd_shape a' = dim # rest" using sh' by simp_all
  have nd: "ndim a' = ndim a" using sh' by (simp add: ndim_def)
  define b where "b = nat (max 0 (if f < 0 then f + dim else f))"
  define e where "e = nat (min dim (if s < 0 then s + dim else s))"
  have e: "int e \<le> dim" using v sh by (auto simp: e_def valid_def)
  define r where "r = (\<lambda>i. slice (sub_array a i) args)"
  define r' where "r' = (\<lambda>i. slice (sub_array a' i) args)"
  have "map_sum id nd_shape (r' i) = map_sum id nd_shape (r i)" if "i \<in> set [b ..< e]" for i
  proof -
    have i: "int i < dim" using that e by auto
    note s = sub_array_valid [OF v(1) sh(1) i] sub_array_valid [OF v(2) sh(2) i]
    have "nd_shape (sub_array a' i) = nd_shape (sub_array a i)" by (simp add: s)
    with wb s(2) s(5) have "map_sum id nd_shape (slice (sub_array a' i) args)
          = map_sum id nd_shape (slice (sub_array a i) args)"
      unfolding slice_wb_def by blast
    then show ?thesis by (simp add: r_def r'_def)
  qed
  then have "map (map_sum id nd_shape) (map r' [b ..< e]) = map (map_sum id nd_shape) (map r [b ..< e])"
    by simp
  from collect_map_sum [OF this]
  have cm: "map_sum id (map nd_shape) (collect (map r' [b ..< e]))
        = map_sum id (map nd_shape) (collect (map r [b ..< e]))" .
  have eq: "slice_impl a (Range f s # args) =
          (case collect (map r [b ..< e]) of Inl x \<Rightarrow> Inl x | Inr slices \<Rightarrow> Inr (concat_slices slices))"
        "slice_impl a' (Range f s # args) =
          (case collect (map r' [b ..< e]) of Inl x \<Rightarrow> Inl x | Inr slices \<Rightarrow> Inr (concat_slices slices))"
    unfolding slice_impl_Range_collect [OF v(1) sh(1)] slice_impl_Range_collect [OF v(2) sh(2)]
        b_def e_def r_def r'_def by (rule refl)+
  have "map_sum id nd_shape (slice_impl a' (Range f s # args))
        = map_sum id nd_shape (slice_impl a (Range f s # args))"
  proof (cases "collect (map r [b ..< e])")
    case (Inl x)
    with cm have "collect (map r' [b ..< e]) = Inl x"
      by (cases "collect (map r' [b ..< e])") auto
    with Inl show ?thesis by (simp add: eq)
  next
    case (Inr slices)
    with cm obtain slices' where c': "collect (map r' [b ..< e]) = Inr slices'"
        and m: "map nd_shape slices' = map nd_shape slices"
      by (cases "collect (map r' [b ..< e])") auto
    note rs = range_slices [OF wb v(1) sh(1) e Inr [unfolded r_def]]
    note rs' = range_slices [OF wb v(2) sh(2) e c' [unfolded r'_def]]
    show ?thesis
      by (simp add: eq Inr c' concat_slices_shape [OF rs(1) rs'(1) m])
  qed
  then show ?thesis
    by (simp add: slice.simps [of _ "Range f s # args"] nd)
qed

lemma slice_wb_Range:
  assumes wb: "slice_wb args"
  shows "slice_wb (Range f s # args)"
  unfolding slice_wb_def
  using slice_Range_valid [OF wb] slice_Range_shape [OF wb] by blast

lemma slice_wb_all: "slice_wb args"
proof (induction args)
  case Nil
  show ?case by (rule slice_wb_Nil)
next
  case (Cons x args)
  then show ?case by (cases x) (simp_all add: slice_wb_Index slice_wb_Range)
qed

lemma slice_valid:
  assumes "valid a" "slice a args = Inr v"
  shows "valid v" and "subseq (nd_data v) (nd_data a)"
  using slice_wb_all [of args] assms unfolding slice_wb_def by blast+

lemma concat_slices_eq:
  assumes "\<forall>s \<in> set slices. valid s \<and> nd_shape s = nd_shape (hd slices)"
  shows "concat_slices slices =
     (if slices \<noteq> [] \<and> concat (map nd_data slices) \<noteq> []
      then \<lparr>nd_shape = int (length slices) # nd_shape (hd slices),
            nd_data = concat (map nd_data slices)\<rparr>
      else ndarray_default)"
proof (cases "slices = []")
  case True
  then show ?thesis by (simp add: concat_slices_Nil)
next
  case False
  note d = concat_slices_data [OF assms]
  show ?thesis
  proof (cases "prod_list (nd_shape (hd slices)) = 0")
    case True
    with concat_slices_same [OF False assms] have "concat_slices slices = ndarray_default" by simp
    with d show ?thesis by (simp add: ndarray_default_def)
  next
    case z: False
    with concat_slices_same [OF False assms]
    have c: "concat_slices slices = \<lparr>nd_shape = int (length slices) # nd_shape (hd slices),
            nd_data = concat (map nd_data slices)\<rparr>" by simp
    have "valid (hd slices)" using False assms by (cases slices) auto
    then have "nd_data (hd slices) \<noteq> []" using z valid_data_empty by blast
    then have "concat (map nd_data slices) \<noteq> []" using False by (cases slices) auto
    then show ?thesis using False c by simp
  qed
qed

lemma clamped_range:
  fixes dim :: int
  assumes "0 \<le> dim"
  shows "[nat (max 0 x) ..< nat (min dim y)] = [nat (spec_clamp dim x) ..< nat (spec_clamp dim y)]"
proof (cases "x \<le> dim")
  case True
  then show ?thesis using assms by (simp add: spec_clamp_def max_def min_def)
next
  case False
  then have "nat (min dim y) \<le> nat (max 0 x)" "nat (spec_clamp dim y) \<le> nat (spec_clamp dim x)"
    using assms by (auto simp: spec_clamp_def)
  then show ?thesis by simp
qed

lemma slice_Range_eq:
  assumes v: "valid a" and ne: "nd_shape a \<noteq> []" and n: "length args < length (nd_shape a)"
  shows "slice a (Range first second # args) =
     (case collect (map (\<lambda>i. slice (sub_array a (nat i)) args)
              [spec_clamp (hd (nd_shape a)) (spec_resolve (hd (nd_shape a)) first) ..
               spec_clamp (hd (nd_shape a)) (spec_resolve (hd (nd_shape a)) second) - 1]) of
        Inl e \<Rightarrow> Inl e
      | Inr subs \<Rightarrow>
          if subs \<noteq> [] \<and> concat (map nd_data subs) \<noteq> []
          then Inr \<lparr>nd_shape = int (length subs) # nd_shape (hd subs),
                    nd_data = concat (map nd_data subs)\<rparr>
          else Inr ndarray_default)"
    and "\<And>subs. collect (map (\<lambda>i. slice (sub_array a (nat i)) args)
              [spec_clamp (hd (nd_shape a)) (spec_resolve (hd (nd_shape a)) first) ..
               spec_clamp (hd (nd_shape a)) (spec_resolve (hd (nd_shape a)) second) - 1]) = Inr subs
          \<Longrightarrow> (\<forall>s \<in> set subs. valid s \<and> nd_shape s = nd_shape (hd subs))
              \<and> int (length subs) = max 0 (spec_clamp (hd (nd_shape a)) (spec_resolve (hd (nd_shape a)) second)
                   - spec_clamp (hd (nd_shape a)) (spec_resolve (hd (nd_shape a)) first))"
proof -
  obtain dim rest where sh: "nd_shape a = dim # rest" using ne by (cases "nd_shape a") auto
  have d0: "0 \<le> dim" using v sh by (simp add: valid_def)
  define lo where "lo = spec_clamp dim (spec_resolve dim first)"
  define hi where "hi = spec_clamp dim (spec_resolve dim second)"
  have lo0: "0 \<le> lo" "0 \<le> hi" "hi \<le> dim" using d0 by (simp_all add: lo_def hi_def spec_clamp_def)
  have js: "[nat (max 0 (if first < 0 then first + dim else first)) ..<
             nat (min dim (if second < 0 then second + dim else second))] = [nat lo ..< nat hi]"
    using clamped_range [OF d0] by (simp add: lo_def hi_def spec_resolve_def)
  have m: "map (\<lambda>i. slice (sub_array a (nat i)) args) [lo .. hi - 1]
      = map (\<lambda>i. slice (sub_array a i) args) [nat lo ..< nat hi]"
    by (simp add: upto_map_int [OF lo0(1)] comp_def)
  have cnt: "\<not> ndim a < int (length (Range first second # args))"
    using n by (simp add: ndim_def)
  have s: "slice a (Range first second # args) =
      (case collect (map (\<lambda>i. slice (sub_array a i) args) [nat lo ..< nat hi]) of
         Inl e \<Rightarrow> Inl e
       | Inr slices \<Rightarrow> Inr (concat_slices slices))"
    using cnt by (simp add: slice.simps [of a] slice_impl_Range_collect [OF v sh] js)
  have e: "int (nat hi) \<le> dim" using lo0 by simp
  have all: "(\<forall>s \<in> set subs. valid s \<and> nd_shape s = nd_shape (hd subs))
      \<and> int (length subs) = max 0 (hi - lo)"
    if "collect (map (\<lambda>i. slice (sub_array a i) args) [nat lo ..< nat hi]) = Inr subs" for subs
    using range_slices(1,3) [OF slice_wb_all v sh e that] lo0 by auto
  show "slice a (Range first second # args) =
     (case collect (map (\<lambda>i. slice (sub_array a (nat i)) args)
              [spec_clamp (hd (nd_shape a)) (spec_resolve (hd (nd_shape a)) first) ..
               spec_clamp (hd (nd_shape a)) (spec_resolve (hd (nd_shape a)) second) - 1]) of
        Inl e \<Rightarrow> Inl e
      | Inr subs \<Rightarrow>
          if subs \<noteq> [] \<and> concat (map nd_data subs) \<noteq> []
          then Inr \<lparr>nd_shape = int (length subs) # nd_shape (hd subs),
                    nd_data = concat (map nd_data subs)\<rparr>
          else Inr ndarray_default)"
  proof (cases "collect (map (\<lambda>i. slice (sub_array a i) args) [nat lo ..< nat hi])")
    case (Inl x)
    then show ?thesis
      unfolding sh list.sel lo_def [symmetric] hi_def [symmetric] m s by simp
  next
    case (Inr subs)
    from concat_slices_eq [OF conjunct1 [OF all [OF Inr]]] Inr
    show ?thesis
      unfolding sh list.sel lo_def [symmetric] hi_def [symmetric] m s by simp
  qed
  show "(\<forall>s \<in> set subs. valid s \<and> nd_shape s = nd_shape (hd subs))
              \<and> int (length subs) = max 0 (spec_clamp (hd (nd_shape a)) (spec_resolve (hd (nd_shape a)) second)
                   - spec_clamp (hd (nd_shape a)) (spec_resolve (hd (nd_shape a)) first))"
    if "collect (map (\<lambda>i. slice (sub_array a (nat i)) args)
              [spec_clamp (hd (nd_shape a)) (spec_resolve (hd (nd_shape a)) first) ..
               spec_clamp (hd (nd_shape a)) (spec_resolve (hd (nd_shape a)) second) - 1]) = Inr subs" for subs
    using that all [of subs]
    unfolding sh list.sel lo_def [symmetric] hi_def [symmetric] m by simp
qed

lemma slice_Nil: "slice a [] = Inr a"
  by (simp add: slice.simps slice_impl.simps ndim_def)

text \<open>
  Claim C5, as amended. On a valid array of rank at least 1, a range \<open>(first, second)\<close>
  followed by fewer further arguments than the rank has axes left: both bounds are
  resolved and clamped to \<open>[0, axisLen]\<close>, every position from \<open>start\<close> up to \<open>stop - 1\<close> can
  be indexed (the range itself raises no bounds error, and a range alone never fails),
  and the remaining arguments slice the sub-array at each position. An error of one of
  these slices is the result. Otherwise the sub-arrays all have one shape, and when
  there is at least one position and at least one cell the result has the shape
  \<open>(stop - start) # subShape\<close> and the cells of the sub-arrays, one sub-array after the
  other; when there is no position or no cell it is the array \<open>ndarray()\<close> of shape \<open>[0]\<close>.
  The cells of the result are cells of the source, in the source's order.
\<close>

theorem slice_range_spec:
  assumes v: "valid a" and ne: "nd_shape a \<noteq> []" and n: "length args < length (nd_shape a)"
  shows "(let axisLen = hd (nd_shape a);
              start = spec_clamp axisLen (spec_resolve axisLen first);
              stop = spec_clamp axisLen (spec_resolve axisLen second);
              subs = collect (map (\<lambda>i. slice (sub_array a (nat i)) args) [start .. stop - 1])
          in slice a (Range first second # args) =
               (case subs of
                  Inl e \<Rightarrow> Inl e
                | Inr subs \<Rightarrow>
                    if start < stop \<and> concat (map nd_data subs) \<noteq> []
                    then Inr \<lparr>nd_shape = (stop - start) # nd_shape (hd subs),
                              nd_data = concat (map nd_data subs)\<rparr>
                    else Inr ndarray_default)
             \<and> (\<forall>i \<in> set [start .. stop - 1]. operator_index a i = Inr (sub_array a (nat i)))
             \<and> (case subs of
                  Inl e \<Rightarrow> True
                | Inr subs \<Rightarrow> \<forall>s \<in> set subs. nd_shape s = nd_shape (hd subs)))
       \<and> (\<forall>r. slice a (Range first second # args) = Inr r \<longrightarrow>
              valid r \<and> subseq (nd_data r) (nd_data a))
       \<and> (\<exists>r. slice a [Range first second] = Inr r)"
proof -
  obtain dim rest where sh: "nd_shape a = dim # rest" using ne by (cases "nd_shape a") auto
  have d0: "0 \<le> dim" using v sh by (simp add: valid_def)
  define start where "start = spec_clamp dim (spec_resolve dim first)"
  define stop where "stop = spec_clamp dim (spec_resolve dim second)"
  define subs where "subs = collect (map (\<lambda>i. slice (sub_array a (nat i)) args) [start .. stop - 1])"
  note eq = slice_Range_eq [OF v ne n, of first second, unfolded sh list.sel,
      folded start_def stop_def, folded subs_def]
  have one: "slice a (Range first second # args) =
               (case subs of
                  Inl e \<Rightarrow> Inl e
                | Inr subs \<Rightarrow>
                    if start < stop \<and> concat (map nd_data subs) \<noteq> []
                    then Inr \<lparr>nd_shape = (stop - start) # nd_shape (hd subs),
                              nd_data = concat (map nd_data subs)\<rparr>
                    else Inr ndarray_default)"
  proof (cases subs)
    case (Inl e)
    then show ?thesis by (simp add: eq(1))
  next
    case (Inr ss)
    from eq(2) [OF Inr] have len: "int (length ss) = max 0 (stop - start)" by simp
    have "length ss = 0 \<longleftrightarrow> \<not> start < stop" using len by linarith
    then have "ss \<noteq> [] \<longleftrightarrow> start < stop" by simp
    moreover have "start < stop \<Longrightarrow> int (length ss) = stop - start" using len by simp
    ultimately show ?thesis by (simp add: eq(1) Inr del: concat_eq_Nil_conv)
  qed
  have two: "\<forall>i \<in> set [start .. stop - 1]. operator_index a i = Inr (sub_array a (nat i))"
  proof
    fix i assume "i \<in> set [start .. stop - 1]"
    then have i: "0 \<le> i" "i < dim"
      using d0 by (auto simp: start_def stop_def spec_clamp_def)
    then have "int (nat i) < dim" by simp
    from sub_array_valid(1) [OF v sh this] i show "operator_index a i = Inr (sub_array a (nat i))"
      by simp
  qed
  have three: "(case subs of Inl e \<Rightarrow> True
                | Inr subs \<Rightarrow> \<forall>s \<in> set subs. nd_shape s = nd_shape (hd subs))"
  proof (cases subs)
    case (Inl e)
    then show ?thesis by simp
  next
    case (Inr ss)
    from eq(2) [OF Inr] show ?thesis by (simp add: Inr)
  qed
  have four: "\<forall>r. slice a (Range first second # args) = Inr r \<longrightarrow>
              valid r \<and> subseq (nd_data r) (nd_data a)"
    using slice_valid [OF v] by blast
  have "length ([] :: slice_arg list) < length (nd_shape a)" using ne by simp
  note eq0 = slice_Range_eq(1) [OF v ne this, of first second]
  have "(\<lambda>i. slice (sub_array a (nat i)) []) = (\<lambda>i. Inr (sub_array a (nat i)))"
    by (simp add: slice_Nil)
  then have "collect (map (\<lambda>i. slice (sub_array a (nat i)) []) js)
      = Inr (map (\<lambda>i. sub_array a (nat i)) js)" for js
    using collect_map_Inr [of "map (\<lambda>i. sub_array a (nat i)) js"] by (simp add: comp_def)
  then have five: "\<exists>r. slice a [Range first second] = Inr r"
    unfolding eq0 by simp
  show ?thesis
    unfolding sh list.sel Let_def
    using one two three four five
    unfolding start_def stop_def subs_def by blast
qed

text \<open>\<open>arange(20).reshape([4,1,5]).slice((1,4), 0, (2,5))\<close>\<close>

theorem slice_range_spec_witness:
  "valid \<lparr>nd_shape = [4, 1, 5], nd_data = [0, 1, 2, 3, 4, 5, 6, 7, 8, 9, 10, 11, 12, 13, 14, 15, 16, 17, 18, 19]\<rparr>
   \<and> nd_shape \<lparr>nd_shape = [4, 1, 5], nd_data = [0, 1, 2, 3, 4, 5, 6, 7, 8, 9, 10, 11, 12, 13, 14, 15, 16, 17, 18, 19]\<rparr> \<noteq> []
   \<and> length [Index 0, Range 2 5]
       < length (nd_shape \<lparr>nd_shape = [4, 1, 5], nd_data = [0, 1, 2, 3, 4, 5, 6, 7, 8, 9, 10, 11, 12, 13, 14, 15, 16, 17, 18, 19]\<rparr>)
   \<and> slice \<lparr>nd_shape = [4, 1, 5], nd_data = [0, 1, 2, 3, 4, 5, 6, 7, 8, 9, 10, 11, 12, 13, 14, 15, 16, 17, 18, 19]\<rparr>
        [Range 1 4, Index 0, Range 2 5]
      = Inr \<lparr>nd_shape = [3, 3], nd_data = [7, 8, 9, 12, 13, 14, 17, 18, 19]\<rparr>"
proof -
  have h: "valid \<lparr>nd_shape = [4, 1, 5], nd_data = [0, 1, 2, 3, 4, 5, 6, 7, 8, 9, 10, 11, 12, 13, 14, 15, 16, 17, 18, 19]\<rparr>"
    "nd_shape \<lparr>nd_shape = [4, 1, 5], nd_data = [0, 1, 2, 3, 4, 5, 6, 7, 8, 9, 10, 11, 12, 13, 14, 15, 16, 17, 18, 19]\<rparr> \<noteq> []"
    "length [Index 0, Range 2 5]
       < length (nd_shape \<lparr>nd_shape = [4, 1, 5], nd_data = [0, 1, 2, 3, 4, 5, 6, 7, 8, 9, 10, 11, 12, 13, 14, 15, 16, 17, 18, 19]\<rparr>)"
    by (simp_all add: valid_def size_invariant_def)
  note t = conjunct1 [OF conjunct1 [OF slice_range_spec [OF h, of 1 4, unfolded Let_def]]]
  have "slice \<lparr>nd_shape = [4, 1, 5], nd_data = [0, 1, 2, 3, 4, 5, 6, 7, 8, 9, 10, 11, 12, 13, 14, 15, 16, 17, 18, 19]\<rparr>
        [Range 1 4, Index 0, Range 2 5]
      = Inr \<lparr>nd_shape = [3, 3], nd_data = [7, 8, 9, 12, 13, 14, 17, 18, 19]\<rparr>"
    unfolding t by code_simp
  with h show ?thesis by simp
qed

text \<open>
  Claim C5 as stated fails on the empty range \<open>(1, 1)\<close> of an array of shape \<open>[2, 2]\<close>: the
  claim gives the shape \<open>[end - start] + subShape = [0, 2]\<close>, and the result has the
  shape \<open>[0]\<close>.
\<close>

theorem slice_empty_range_counterexample:
  "slice \<lparr>nd_shape = [2, 2], nd_data = [0, 1, 2, 3]\<rparr> [Range 1 1] = Inr \<lparr>nd_shape = [0], nd_data = []\<rparr>
   \<and> operator_index \<lparr>nd_shape = [2, 2], nd_data = [0, 1, 2, 3]\<rparr> 1 = Inr \<lparr>nd_shape = [2], nd_data = [2, 3]\<rparr>
   \<and> [0] \<noteq> (1 - 1) # [2 :: int]"
  by code_simp

subsection \<open>Assignment into a slice\<close>

text \<open>
  Claim C2, as amended. Let \<open>a\<close> be a valid array with pairwise distinct cells, \<open>v\<close> a slice
  of \<open>a\<close> taken before the assignment, and \<open>other\<close> a valid array that shares no cell with
  \<open>v\<close>. When \<open>v = other\<close> succeeds, the target it returns is \<open>v\<close> itself, cell sequence
  included, and the store has the cells it had. Every cell of \<open>v\<close> is a cell of \<open>a\<close>, and
  it now holds the value that \<open>other\<close>, broadcast to the shape of \<open>v\<close>, had at its position
  before the assignment: this is what \<open>v\<close> reads, and what \<open>a\<close> or any view \<open>b\<close> reads at a
  position whose cell is that cell of \<open>v\<close>. Every other cell, so every cell of \<open>a\<close>
  outside the slice, holds its previous value.
\<close>

theorem slice_assign_write_through:
  assumes a: "valid a" "allocated h a" "distinct (nd_data a)"
    and v: "slice a args = Inr v"
    and o: "valid other" "allocated h other" "set (nd_data other) \<inter> set (nd_data v) = {}"
    and asg: "operator_assign h v other = (Inr r, h')"
  shows "r = v \<and> length h' = length h \<and> set (nd_data v) \<subseteq> set (nd_data a)
       \<and> (\<exists>t. spec_align False (nd_shape v) (nd_shape other) = Some t
             \<and> map ((!) h') (nd_data v)
                 = map ((!) h) (spec_broadcast (nd_shape other) t (nd_data other))
             \<and> (\<forall>b i j. i < length (nd_data v) \<and> j < length (nd_data b)
                          \<and> nd_data b ! j = nd_data v ! i \<longrightarrow>
                    h' ! (nd_data b ! j)
                      = h ! (spec_broadcast (nd_shape other) t (nd_data other) ! i)))
       \<and> (\<forall>p. p \<notin> set (nd_data v) \<longrightarrow> h' ! p = h ! p)"
proof -
  note sv = slice_valid [OF a(1) v]
  have sub: "set (nd_data v) \<subseteq> set (nd_data a)"
    using sv(2) by (rule list_emb_set [THEN subsetI]) auto
  have dv: "distinct (nd_data v)" using subseq_distinct [OF sv(2) a(3)] .
  have av: "allocated h v"
    using a(2) sub by (auto simp: allocated_def list_all_iff)
  note eq = operator_assign_eq [OF sv(1) o(1) av o(2)]
  from asg eq obtain t where t: "spec_align False (nd_shape v) (nd_shape other) = Some t"
    by (cases "spec_align False (nd_shape v) (nd_shape other)") auto
  define rd where "rd = spec_broadcast (nd_shape other) t (nd_data other)"
  from asg have r: "r = v" and h': "h' = snd (assign_cells h (nd_data v) rd)"
    by (auto simp: eq t rd_def)
  have vs: "valid_shape (nd_shape v)" "valid_shape (nd_shape other)"
    using sv(1) o(1) by (simp_all add: valid_def)
  note len = size_invariant_length [OF sv(1)] size_invariant_length [OF o(1)]
  note l = spec_align_broadcast_length [OF t vs len]
  have len_eq: "length (nd_data v) = length rd"
    using l(2) len(1) spec_align_fixed_lhs [OF t] by (simp add: rd_def)
  have rd_set: "set rd \<subseteq> set (nd_data other)"
    by (simp add: rd_def spec_broadcast_set)
  have al1: "\<forall>p \<in> set (nd_data v). p < length h"
    using av by (simp add: allocated_def list_all_iff)
  have al2: "\<forall>p \<in> set rd. p < length h"
    using o(2) rd_set by (auto simp: allocated_def list_all_iff)
  have dis: "set (nd_data v) \<inter> set rd = {}" using o(3) rd_set by auto
  have vals: "map ((!) h') (nd_data v) = map ((!) h) rd"
    unfolding h' by (rule assign_cells_values [OF len_eq al1 al2 dv dis])
  have through: "h' ! (nd_data b ! j) = h ! (rd ! i)"
    if "i < length (nd_data v)" "j < length (nd_data b)" "nd_data b ! j = nd_data v ! i" for b i j
  proof -
    have "map ((!) h') (nd_data v) ! i = map ((!) h) rd ! i" using vals by simp
    then show ?thesis using that len_eq by simp
  qed
  have frame: "h' ! p = h ! p" if "p \<notin> set (nd_data v)" for p
    unfolding h' using that by (rule assign_cells_frame)
  have "length h' = length h" unfolding h' by (rule assign_cells_length)
  with r sub t vals through frame show ?thesis
    unfolding rd_def by blast
qed

text \<open>\<open>a\<close> of shape \<open>[2, 3]\<close>, \<open>v = a.slice((0,2), (1,3))\<close>, the view \<open>b = a.slice(1)\<close> taken before,
  and \<open>v = other\<close> for \<open>other\<close> of shape \<open>[2]\<close> with the values 100 and 200.\<close>

theorem slice_assign_write_through_witness:
  "valid \<lparr>nd_shape = [2, 3], nd_data = [0, 1, 2, 3, 4, 5]\<rparr>
   \<and> allocated [0, 10, 20, 30, 40, 50, 100, 200 :: int] \<lparr>nd_shape = [2, 3], nd_data = [0, 1, 2, 3, 4, 5]\<rparr>
   \<and> distinct (nd_data \<lparr>nd_shape = [2, 3], nd_data = [0, 1, 2, 3, 4, 5]\<rparr>)
   \<and> slice \<lparr>nd_shape = [2, 3], nd_data = [0, 1, 2, 3, 4, 5]\<rparr> [Range 0 2, Range 1 3]
       = Inr \<lparr>nd_shape = [2, 2], nd_data = [1, 2, 4, 5]\<rparr>
   \<and> slice \<lparr>nd_shape = [2, 3], nd_data = [0, 1, 2, 3, 4, 5]\<rparr> [Index 1]
       = Inr \<lparr>nd_shape = [3], nd_data = [3, 4, 5]\<rparr>
   \<and> valid \<lparr>nd_shape = [2], nd_data = [6, 7]\<rparr>
   \<and> allocated [0, 10, 20, 30, 40, 50, 100, 200 :: int] \<lparr>nd_shape = [2], nd_data = [6, 7]\<rparr>
   \<and> set (nd_data \<lparr>nd_shape = [2], nd_data = [6, 7]\<rparr>)
         \<inter> set (nd_data \<lparr>nd_shape = [2, 2], nd_data = [1, 2, 4, 5]\<rparr>) = {}
   \<and> operator_assign [0, 10, 20, 30, 40, 50, 100, 200 :: int]
         \<lparr>nd_shape = [2, 2], nd_data = [1, 2, 4, 5]\<rparr> \<lparr>nd_shape = [2], nd_data = [6, 7]\<rparr>
       = (Inr \<lparr>nd_shape = [2, 2], nd_data = [1, 2, 4, 5]\<rparr>, [0, 100, 200, 30, 100, 200, 100, 200])
   \<and> map ((!) [0, 100, 200, 30, 100, 200, 100, 200 :: int]) [3, 4, 5] = [30, 100, 200]
   \<and> map ((!) [0, 100, 200, 30, 100, 200, 100, 200 :: int]) [0, 1, 2, 3, 4, 5]
       = [0, 100, 200, 30, 100, 200]
   \<and> set (nd_data \<lparr>nd_shape = [2, 2], nd_data = [1, 2, 4, 5]\<rparr>)
         \<subseteq> set (nd_data \<lparr>nd_shape = [2, 3], nd_data = [0, 1, 2, 3, 4, 5]\<rparr>)"
proof -
  have h: "valid \<lparr>nd_shape = [2, 3], nd_data = [0, 1, 2, 3, 4, 5]\<rparr>"
    "allocated [0, 10, 20, 30, 40, 50, 100, 200 :: int] \<lparr>nd_shape = [2, 3], nd_data = [0, 1, 2, 3, 4, 5]\<rparr>"
    "distinct (nd_data \<lparr>nd_shape = [2, 3], nd_data = [0, 1, 2, 3, 4, 5]\<rparr>)"
    by (simp_all add: valid_def size_invariant_def allocated_def)
  have s: "slice \<lparr>nd_shape = [2, 3], nd_data = [0, 1, 2, 3, 4, 5]\<rparr> [Range 0 2, Range 1 3]
       = Inr \<lparr>nd_shape = [2, 2], nd_data = [1, 2, 4, 5]\<rparr>"
    by code_simp
  have b: "slice \<lparr>nd_shape = [2, 3], nd_data = [0, 1, 2, 3, 4, 5]\<rparr> [Index 1]
       = Inr \<lparr>nd_shape = [3], nd_data = [3, 4, 5]\<rparr>"
    by code_simp
  have o: "valid \<lparr>nd_shape = [2], nd_data = [6, 7]\<rparr>"
    "allocated [0, 10, 20, 30, 40, 50, 100, 200 :: int] \<lparr>nd_shape = [2], nd_data = [6, 7]\<rparr>"
    "set (nd_data \<lparr>nd_shape = [2], nd_data = [6, 7]\<rparr>)
         \<inter> set (nd_data \<lparr>nd_shape = [2, 2], nd_data = [1, 2, 4, 5]\<rparr>) = {}"
    by (simp_all add: valid_def size_invariant_def allocated_def)
  have asg: "operator_assign [0, 10, 20, 30, 40, 50, 100, 200 :: int]
         \<lparr>nd_shape = [2, 2], nd_data = [1, 2, 4, 5]\<rparr> \<lparr>nd_shape = [2], nd_data = [6, 7]\<rparr>
       = (Inr \<lparr>nd_shape = [2, 2], nd_data = [1, 2, 4, 5]\<rparr>, [0, 100, 200, 30, 100, 200, 100, 200])"
    by code_simp
  have rd: "map ((!) [0, 100, 200, 30, 100, 200, 100, 200 :: int]) [3, 4, 5] = [30, 100, 200]"
    "map ((!) [0, 100, 200, 30, 100, 200, 100, 200 :: int]) [0, 1, 2, 3, 4, 5]
       = [0, 100, 200, 30, 100, 200]"
    by simp_all
  from slice_assign_write_through [OF h s o asg]
  have "set (nd_data \<lparr>nd_shape = [2, 2], nd_data = [1, 2, 4, 5]\<rparr>)
         \<subseteq> set (nd_data \<lparr>nd_shape = [2, 3], nd_data = [0, 1, 2, 3, 4, 5]\<rparr>)"
    by blast
  with h s b o asg rd show ?thesis by blast
qed

text \<open>
  Claim C2 as stated fails when the right-hand side shares cells with the target. For
  \<open>a\<close> holding 10, 20, 30 in the cells 0, 1, 2, the view \<open>v = a.slice((0,3))\<close> and the
  literal \<open>other = {a[1], a[2], a[0]}\<close> (the cells 1, 2, 0), the loop of \<open>v = other\<close> copies
  cell by cell in order and leaves 20, 30, 20 in \<open>v\<close>: neither the values 20, 30, 10 that
  \<open>other\<close> had, nor the values 30, 20, 20 that \<open>other\<close> has afterwards.
\<close>

theorem slice_assign_aliased_counterexample:
  "slice \<lparr>nd_shape = [3], nd_data = [0, 1, 2]\<rparr> [Range 0 3] = Inr \<lparr>nd_shape = [3], nd_data = [0, 1, 2]\<rparr>
   \<and> operator_index \<lparr>nd_shape = [3], nd_data = [0, 1, 2]\<rparr> 1 = Inr \<lparr>nd_shape = [], nd_data = [1]\<rparr>
   \<and> operator_index \<lparr>nd_shape = [3], nd_data = [0, 1, 2]\<rparr> 2 = Inr \<lparr>nd_shape = [], nd_data = [2]\<rparr>
   \<and> operator_index \<lparr>nd_shape = [3], nd_data = [0, 1, 2]\<rparr> 0 = Inr \<lparr>nd_shape = [], nd_data = [0]\<rparr>
   \<and> ndarray_of_arrays [\<lparr>nd_shape = [], nd_data = [1]\<rparr>, \<lparr>nd_shape = [], nd_data = [2]\<rparr>,
          \<lparr>nd_shape = [], nd_data = [0]\<rparr>] = \<lparr>nd_shape = [3], nd_data = [1, 2, 0]\<rparr>
   \<and> operator_assign [10, 20, 30 :: int] \<lparr>nd_shape = [3], nd_data = [0, 1, 2]\<rparr>
          \<lparr>nd_shape = [3], nd_data = [1, 2, 0]\<rparr>
       = (Inr \<lparr>nd_shape = [3], nd_data = [0, 1, 2]\<rparr>, [20, 30, 20])
   \<and> map ((!) [20, 30, 20 :: int]) [0, 1, 2] = [20, 30, 20]
   \<and> map ((!) [10, 20, 30 :: int]) [1, 2, 0] = [20, 30, 10]
   \<and> map ((!) [20, 30, 20 :: int]) [1, 2, 0] = [30, 20, 20]
   \<and> map ((!) [20, 30, 20 :: int]) [0, 1, 2] \<noteq> map ((!) [10, 20, 30 :: int]) [1, 2, 0]
   \<and> map ((!) [20, 30, 20 :: int]) [0, 1, 2] \<noteq> map ((!) [20, 30, 20 :: int]) [1, 2, 0]"
  by code_simp

subsection \<open>The size invariant\<close>

text \<open>Every operation but the nested literal gives an array with
  \<open>len(cells) == product(shape)\<close>, as long as the products of the shapes it is given are
  in the range of \<open>int\<close>; the nested literal does when its sub-arrays agree in shape and
  hold at least one cell.\<close>

lemma astype_cells_length:
  "astype_cells conv h hu ps = (Inr qs, hu') \<Longrightarrow> length qs = length ps"
proof (induction ps arbitrary: hu qs hu')
  case Nil
  then show ?case by simp
next
  case (Cons p ps)
  then show ?case
    by (auto simp: make_shared_def split: if_splits prod.splits sum.splits)
qed

lemma size_invariant_kept:
  shows "arange T h n start = (Inr r, h') \<Longrightarrow> size_invariant r"
    and "size_invariant (fst (scalar h x))"
    and "- 2147483648 \<le> prod_list shape \<Longrightarrow> prod_list shape < 2147483648 \<Longrightarrow>
         full h shape x = (Inr r, h') \<Longrightarrow> size_invariant r"
    and "size_invariant (fst (ndarray_of_values h xs))"
    and "valid a \<Longrightarrow> - 2147483648 \<le> prod_list shape \<Longrightarrow> prod_list shape < 2147483648 \<Longrightarrow>
         reshape a shape = Inr r \<Longrightarrow> size_invariant r"
    and "size_invariant a \<Longrightarrow> astype conv h hu a = (Inr r, hu') \<Longrightarrow> size_invariant r"
    and "valid a \<Longrightarrow> operator_index a i = Inr r \<Longrightarrow> size_invariant r"
    and "valid a \<Longrightarrow> slice a args = Inr r \<Longrightarrow> size_invariant r"
    and "valid a \<Longrightarrow> valid b \<Longrightarrow> allocated h a \<Longrightarrow> allocated h b \<Longrightarrow>
         operator_impl T h a b op = (Inr r, h') \<Longrightarrow> size_invariant r"
    and "\<forall>s \<in> set ary. valid s \<and> nd_shape s = nd_shape (hd ary) \<Longrightarrow>
         concat (map nd_data ary) \<noteq> [] \<Longrightarrow> size_invariant (ndarray_of_arrays ary)"
proof -
  show "arange T h n start = (Inr r, h') \<Longrightarrow> size_invariant r"
    by (auto simp: arange_def transform_data_eq size_invariant_def split: if_splits)
  show "size_invariant (fst (scalar h x))"
    by (simp add: scalar_def make_shared_def size_invariant_def)
  show "- 2147483648 \<le> prod_list shape \<Longrightarrow> prod_list shape < 2147483648 \<Longrightarrow>
         full h shape x = (Inr r, h') \<Longrightarrow> size_invariant r"
    by (auto simp: full_def transform_data_eq size_invariant_def get_size_int32 int32_fits
        Let_def split: if_splits)
  show "size_invariant (fst (ndarray_of_values h xs))"
    by (simp add: ndarray_of_values_def transform_data_eq size_invariant_def)
  show "size_invariant r"
    if "valid a" "- 2147483648 \<le> prod_list shape" "prod_list shape < 2147483648"
      "reshape a shape = Inr r"
  proof -
    have "int (length (nd_data a)) = prod_list (nd_shape a)" "length (nd_data a) < 2147483648"
      using that(1) by (simp_all add: valid_def size_invariant_def)
    then have "int32 (prod_list (nd_shape a)) = prod_list (nd_shape a)"
      by (intro int32_fits) linarith+
    then show ?thesis
      using that \<open>int (length (nd_data a)) = prod_list (nd_shape a)\<close>
      by (auto simp: reshape_def get_size_int32 int32_fits size_invariant_def Let_def
          split: if_splits)
  qed
  show "size_invariant a \<Longrightarrow> astype conv h hu a = (Inr r, hu') \<Longrightarrow> size_invariant r"
    by (auto simp: astype_def size_invariant_def split: prod.splits sum.splits
        dest: astype_cells_length)
  show "valid a \<Longrightarrow> operator_index a i = Inr r \<Longrightarrow> size_invariant r"
    using operator_index_valid [of a i r] by (simp add: valid_def)
  show "valid a \<Longrightarrow> slice a args = Inr r \<Longrightarrow> size_invariant r"
    using slice_valid(1) [of a args r] by (simp add: valid_def)
  show "size_invariant r"
    if "valid a" "valid b" "allocated h a" "allocated h b" "operator_impl T h a b op = (Inr r, h')"
  proof (cases "spec_align True (nd_shape a) (nd_shape b)")
    case None
    with that operator_impl_eq [OF that(1-4), of T op] show ?thesis by simp
  next
    case (Some t)
    have "valid_shape t"
      using spec_align_broadcast_length(3) [OF Some _ _ size_invariant_length size_invariant_length]
        that(1,2) by (simp add: valid_def)
    from valid_shape_prod_nonneg [OF this] that(5) operator_impl_eq [OF that(1-4), of T op] Some
    show ?thesis by (auto simp: size_invariant_def split: option.splits)
  qed
  show "size_invariant (ndarray_of_arrays ary)"
    if all: "\<forall>s \<in> set ary. valid s \<and> nd_shape s = nd_shape (hd ary)"
      and ne: "concat (map nd_data ary) \<noteq> []"
  proof -
    from ne have ary: "ary \<noteq> []" by auto
    from get_shape_same [OF ary] all
    have gs: "get_shape ary = int (length ary) # nd_shape (hd ary)" by simp
    from size_invariant_concat(1) [OF ary all] ne show ?thesis
      by (simp add: ndarray_of_arrays_def gs flatten_data_concat
          del: concat_eq_Nil_conv)
  qed
qed

text \<open>
  Claim C7 at the nested literal \<open>{{1, 2}, {3}}\<close>. The two flat literals satisfy the size
  invariant. The nested literal built from them has no cell, while the product of its
  (empty) shape is 1: \<open>size()\<close> is 0 and the product of \<open>shape()\<close> is 1, so the invariant
  \<open>len(cells) == product(shape)\<close> does not hold of an array that a construction produced.
\<close>

theorem literal_breaks_size_invariant:
  "(case ndarray_of_values [] [1, 2 :: int] of (x, h1) \<Rightarrow>
      case ndarray_of_values h1 [3] of (y, h2) \<Rightarrow>
        size_invariant x \<and> size_invariant y
        \<and> size_nd (ndarray_of_arrays [x, y]) = 0
        \<and> get_size (nd_shape (ndarray_of_arrays [x, y])) = 1
        \<and> \<not> size_invariant (ndarray_of_arrays [x, y]))"
  by (simp add: ndarray_of_values_def transform_data_eq size_invariant_def
      ndarray_of_arrays_def get_shape_def size_nd_def get_size_def)

end
